theory Spec2Isabelle
  imports Complex_Main "HOL-Library.Char_ord" "HOL-Library.List_Lexorder"
begin

section \<open>Cloudflare analytics collector: the spreadsheet handler and the scheduling gate\<close>

text \<open>
  The development embeds \<^verbatim>\<open>src/cloudflare_analytics.py\<close>:
  \<^verbatim>\<open>GoogleSheetHandler.format_bytes\<close>, \<^verbatim>\<open>get_existing_data\<close>, \<^verbatim>\<open>get_sheet_id\<close>,
  \<^verbatim>\<open>append_daily_data\<close> and \<^verbatim>\<open>should_collect_data\<close>.
  Python exceptions are values of \<open>error\<close>; a function that can raise returns
  \<open>error + 'a\<close> with \<open>Inl\<close> for the exception.
\<close>

datatype error =
    OverflowError   \<comment> \<open>int too large to convert to float\<close>
  | ValueError      \<comment> \<open>\<^verbatim>\<open>datetime.strptime\<close> rejects the date string\<close>
  | IndexError      \<comment> \<open>\<^verbatim>\<open>row[0]\<close> on an empty row\<close>
  | HttpError       \<comment> \<open>a Google Sheets request fails\<close>
  | ZeroDivisionError

subsection \<open>Decimal digits and Python's \<^verbatim>\<open>.2f\<close> format\<close>

definition digit_char :: "nat \<Rightarrow> char" where
  "digit_char d = ''0123456789'' ! (d mod 10)"

fun digits :: "nat \<Rightarrow> string" where
  "digits n = (if n < 10 then [digit_char n] else digits (n div 10) @ [digit_char (n mod 10)])"

declare digits.simps [simp del]

text \<open>
  Rounding to the nearest integer, ties to the even neighbour: what the correctly rounded
  decimal conversion behind \<^verbatim>\<open>f"{x:.2f}"\<close> does with the exact value of the double.
\<close>

definition round_half_even :: "rat \<Rightarrow> int" where
  "round_half_even x =
     (let f = \<lfloor>x\<rfloor>; d = x - of_int f
      in if d < 1 / 2 then f
         else if 1 / 2 < d then f + 1
         else if even f then f else f + 1)"

definition fmt2f :: "rat \<Rightarrow> string" where
  "fmt2f v =
     (let c = nat (round_half_even (\<bar>v\<bar> * 100))
      in (if v < 0 then ''-'' else '''') @ digits (c div 100) @ ''.'' @
         [digit_char (c div 10), digit_char c])"

subsection \<open>Conversion of a Python int to a double\<close>

fun bit_length :: "int \<Rightarrow> nat" where
  "bit_length n = (if n \<le> 0 then 0 else Suc (bit_length (n div 2)))"

declare bit_length.simps [simp del]

text \<open>
  \<^verbatim>\<open>float(n)\<close> keeps 53 significant bits, rounding to nearest, ties to even. Below
  \<open>2 ^ 53\<close> the conversion is exact; a magnitude that rounds to \<open>2 ^ 1024\<close> or more
  raises OverflowError.
\<close>

definition nearest_double :: "int \<Rightarrow> int" where
  "nearest_double m =
     (if m < 2 ^ 53 then m
      else let sh = bit_length m - 53; q = m div 2 ^ sh; r = m mod 2 ^ sh; h = 2 ^ (sh - 1)
           in (if r < h \<or> (r = h \<and> even q) then q else q + 1) * 2 ^ sh)"

definition py_float :: "int \<Rightarrow> error + rat" where
  "py_float n =
     (let m = nearest_double \<bar>n\<bar>
      in if 2 ^ 1024 \<le> m then Inl OverflowError
         else Inr (if n < 0 then - of_int m else of_int m))"

subsection \<open>\<^verbatim>\<open>GoogleSheetHandler.format_bytes\<close>\<close>

text \<open>
  \<^verbatim>\<open>
  def format_bytes(self, bytes_value):
      for unit in ['B', 'KB', 'MB', 'GB', 'TB']:
          if bytes_value < 1024.0:
              return f"{bytes_value:.2f} {unit}"
          bytes_value /= 1024.0
      return f"{bytes_value:.2f} PB"
  \<close>
  The argument is a Python int. Formatting it with \<^verbatim>\<open>.2f\<close> and dividing it by
  \<^verbatim>\<open>1024.0\<close> both convert it to a double first; every later division by 1024 only
  lowers the exponent of a double that is at least 1024, so it is exact, and the value is
  carried as a rational.
\<close>

definition units :: "string list" where
  "units = [''B'', ''KB'', ''MB'', ''GB'', ''TB'']"

fun format_bytes_loop :: "rat \<Rightarrow> string list \<Rightarrow> string" where
  "format_bytes_loop v [] = fmt2f v @ '' PB''"
| "format_bytes_loop v (unit # rest) =
     (if v < 1024 then fmt2f v @ '' '' @ unit else format_bytes_loop (v / 1024) rest)"

definition format_bytes :: "int \<Rightarrow> error + string" where
  "format_bytes bytes_value =
     (case py_float bytes_value of
        Inl e \<Rightarrow> Inl e
      | Inr v \<Rightarrow> Inr (format_bytes_loop v units))"

subsection \<open>\<^verbatim>\<open>should_collect_data\<close>\<close>

record datetime =
  year :: nat
  month :: nat
  day :: nat
  hour :: nat
  minute :: nat
  second :: nat

text \<open>
  \<^verbatim>\<open>
  def should_collect_data():
      now = datetime.now()
      print(f"... {now.day}")
      return now.day == 1
  \<close>
  The clock reading is the argument.
\<close>

definition should_collect_data :: "datetime \<Rightarrow> bool" where
  "should_collect_data now = (day now = 1)"

subsection \<open>The cache ratio of \<^verbatim>\<open>get_last_30days_analytics\<close>\<close>

text \<open>
  \<^verbatim>\<open>
  total_requests = daily_record[total]
  if total_requests > 0:
      cache_ratio = (daily_record[cached] / total_requests) * 100
      daily_record[ratio] = round(cache_ratio, 2)
  else:
      daily_record[ratio] = 0
  \<close>
  The two counts are Python ints; the quotient, the product and the rounded value are
  binary64 doubles. A finite double is carried as the rational it denotes.

  \<open>round_double\<close> is rounding to the nearest double, ties to even: the value is scaled
  by the power of two that brings it into \<open>[2 ^ 52, 2 ^ 53)\<close>, at least \<open>2 ^ - 1074\<close>
  (the spacing of the subnormal doubles), and rounded to an integer. It does not look at
  the upper end of the range: a result of magnitude \<open>2 ^ 1024\<close> or more stands for an
  overflow, which each operation treats in its own way.
\<close>

datatype pyfloat = Finite rat | PosInf | NegInf

definition double_exponent :: "rat \<Rightarrow> int" where
  "double_exponent x =
     (let (a, b) = quotient_of x;
          e0 = int (bit_length a) - int (bit_length b) - 53;
          e = (if x < 2 ^ 53 * 2 powi e0 then e0 else e0 + 1)
      in max e (- 1074))"

definition round_double :: "rat \<Rightarrow> rat" where
  "round_double x =
     (if x = 0 then 0
      else let e = double_exponent \<bar>x\<bar>;
               m = round_half_even (\<bar>x\<bar> / 2 powi e)
           in (if x < 0 then - 1 else 1) * of_int m * 2 powi e)"

text \<open>
  \<^verbatim>\<open>a / b\<close> on ints is the correctly rounded quotient; it raises OverflowError when
  the quotient is too large for a double.
\<close>

definition true_div :: "int \<Rightarrow> int \<Rightarrow> error + rat" where
  "true_div a b =
     (if b = 0 then Inl ZeroDivisionError
      else let q = round_double (of_int a / of_int b)
           in if 2 ^ 1024 \<le> \<bar>q\<bar> then Inl OverflowError else Inr q)"

text \<open>The product of two finite doubles; an overflow gives an infinity, not an exception.\<close>

definition float_mul :: "rat \<Rightarrow> rat \<Rightarrow> pyfloat" where
  "float_mul x y =
     (let p = round_double (x * y)
      in if 2 ^ 1024 \<le> p then PosInf else if p \<le> - (2 ^ 1024) then NegInf else Finite p)"

text \<open>
  \<^verbatim>\<open>round(x, 2)\<close> on a double: the exact value of \<open>x\<close> is rounded to two decimals,
  ties to even, and the decimal is converted back to the nearest double. An infinity
  rounds to itself.
\<close>

fun py_round2 :: "pyfloat \<Rightarrow> pyfloat" where
  "py_round2 (Finite v) = Finite (round_double (of_int (round_half_even (v * 100)) / 100))"
| "py_round2 PosInf = PosInf"
| "py_round2 NegInf = NegInf"

definition cache_ratio_percent :: "int \<Rightarrow> int \<Rightarrow> error + pyfloat" where
  "cache_ratio_percent cached requests =
     (if 0 < requests
      then (case true_div cached requests of
              Inl e \<Rightarrow> Inl e
            | Inr q \<Rightarrow> Inr (py_round2 (float_mul q 100)))
      else Inr (Finite 0))"

subsection \<open>\<^verbatim>\<open>datetime.strptime(s, '%Y-%m-%d')\<close> and the date formula\<close>

definition is_digit :: "char \<Rightarrow> bool" where
  "is_digit c = (c \<in> set ''0123456789'')"

definition digit_val :: "char \<Rightarrow> nat" where
  "digit_val c = of_char c - 48"

text \<open>
  The directive \<^verbatim>\<open>%m\<close> is the regular expression \<^verbatim>\<open>1[0-2]|0[1-9]|[1-9]\<close> and
  \<^verbatim>\<open>%d\<close> is \<^verbatim>\<open>3[01]|[12]\d|0[1-9]|[1-9]| [1-9]\<close>; \<^verbatim>\<open>%Y\<close> is four digits. The
  whole string must be consumed, so each field must be one of its alternatives. Strings
  are byte strings here, and a digit is an ASCII digit.
\<close>

fun month_field :: "string \<Rightarrow> nat option" where
  "month_field [a] = (if is_digit a \<and> a \<noteq> CHR ''0'' then Some (digit_val a) else None)"
| "month_field [a, b] =
     (if a = CHR ''1'' \<and> b \<in> set ''012'' then Some (10 + digit_val b)
      else if a = CHR ''0'' \<and> is_digit b \<and> b \<noteq> CHR ''0'' then Some (digit_val b)
      else None)"
| "month_field _ = None"

fun day_field :: "string \<Rightarrow> nat option" where
  "day_field [a] = (if is_digit a \<and> a \<noteq> CHR ''0'' then Some (digit_val a) else None)"
| "day_field [a, b] =
     (if a = CHR ''3'' \<and> b \<in> set ''01'' then Some (30 + digit_val b)
      else if a \<in> set ''12'' \<and> is_digit b then Some (10 * digit_val a + digit_val b)
      else if a \<in> set ''0 '' \<and> is_digit b \<and> b \<noteq> CHR ''0'' then Some (digit_val b)
      else None)"
| "day_field _ = None"

definition is_leap :: "nat \<Rightarrow> bool" where
  "is_leap y = (y mod 4 = 0 \<and> (y mod 100 \<noteq> 0 \<or> y mod 400 = 0))"

definition days_in_month :: "nat \<Rightarrow> nat \<Rightarrow> nat" where
  "days_in_month y m =
     (if m = 2 then (if is_leap y then 29 else 28)
      else if m \<in> {4, 6, 9, 11} then 30 else 31)"

text \<open>The date is built after the match; year 0 and a day beyond the month are rejected.\<close>

definition strptime :: "string \<Rightarrow> error + nat \<times> nat \<times> nat" where
  "strptime s =
     (case s of
        y1 # y2 # y3 # y4 # dash # rest \<Rightarrow>
          (let ms = takeWhile (\<lambda>c. c \<noteq> CHR ''-'') rest;
               ds = drop (Suc (length ms)) rest;
               y = 1000 * digit_val y1 + 100 * digit_val y2 + 10 * digit_val y3 + digit_val y4
           in if list_all is_digit [y1, y2, y3, y4] \<and> dash = CHR ''-'' \<and> length ms < length rest
              then (case (month_field ms, day_field ds) of
                      (Some m, Some d) \<Rightarrow>
                        if 1 \<le> y \<and> d \<le> days_in_month y m then Inr (y, m, d) else Inl ValueError
                    | _ \<Rightarrow> Inl ValueError)
              else Inl ValueError)
      | _ \<Rightarrow> Inl ValueError)"

text \<open>\<^verbatim>\<open>f"=DATE({date_obj.year}, {date_obj.month}, {date_obj.day})"\<close>\<close>

definition formatted_date :: "nat \<times> nat \<times> nat \<Rightarrow> string" where
  "formatted_date ymd =
     (case ymd of (y, m, d) \<Rightarrow>
        ''=DATE('' @ digits y @ '', '' @ digits m @ '', '' @ digits d @ '')'')"

subsection \<open>Records, rows and the spreadsheet service\<close>

text \<open>
  A daily record is the dict built by \<^verbatim>\<open>get_last_30days_analytics\<close>; the field names
  translate its keys. The cache ratio is a double (or the int 0) that the handler only
  copies, so it is carried as a rational.
\<close>

record daily_record =
  date :: string
  unique_visitors :: int
  page_views :: int
  total_requests :: int
  cached_requests :: int
  total_bytes :: int
  cached_bytes :: int
  threats :: int
  cache_ratio :: rat

datatype cell = StrCell string | IntCell int | NumCell rat

record sheet_handler =
  spreadsheet_id :: string
  sheet_name :: string

text \<open>
  The spreadsheet document, as far as the handler sees it: \<open>table\<close> is what
  \<^verbatim>\<open>values().get\<close> returns for the range \<^verbatim>\<open>A:J\<close> of the handler's sheet, \<open>tabs\<close> the
  title and sheetId of every sheet. The two other fields record the writes served:
  the body of every \<^verbatim>\<open>values().append\<close> and the sheetId of every \<^verbatim>\<open>repeatCell\<close>
  request, oldest first.
\<close>

record spreadsheet =
  table :: "string list list"
  tabs :: "(string \<times> int) list"
  appended :: "cell list list list"
  date_formatted :: "int list"

text \<open>
  What the service does during one call of the handler: which request fails, and how it
  displays an entered row when the row is read back (\<open>shown\<close>). The rows are entered
  with \<^verbatim>\<open>USER_ENTERED\<close>, so a formula is evaluated and what is read back depends on
  the number format and the locale of the sheet: \<open>shown\<close> is a parameter.
\<close>

record service =
  shown :: "cell list \<Rightarrow> string list"
  get_fails :: bool
  append_fails :: bool
  lookup_fails :: bool
  format_fails :: bool

text \<open>The reply of \<^verbatim>\<open>values().append\<close>: the \<^verbatim>\<open>updates\<close> part counts what was written.\<close>

record append_response =
  updatedRows :: nat
  updatedCells :: nat

definition append_reply :: "cell list list \<Rightarrow> append_response" where
  "append_reply new_rows =
     \<lparr>updatedRows = length new_rows, updatedCells = sum_list (map length new_rows)\<rparr>"

text \<open>The lines the handler prints, one constructor for each \<^verbatim>\<open>print\<close>.\<close>

datatype message =
    NoData              \<comment> \<open>nothing to add: the argument is empty\<close>
  | ReadFailed          \<comment> \<open>reading the existing data failed\<close>
  | NoNewData           \<comment> \<open>no new data to add\<close>
  | Duplicates nat      \<comment> \<open>number of duplicates\<close>
  | Added nat           \<comment> \<open>number of rows newly added\<close>
  | AddFailed error     \<comment> \<open>an error occurred while adding\<close>

record outcome =
  returned :: "error + append_response option"
  sheet_after :: spreadsheet
  printed :: "message list"

subsection \<open>\<^verbatim>\<open>get_existing_data\<close> and \<^verbatim>\<open>get_sheet_id\<close>\<close>

text \<open>
  \<^verbatim>\<open>
  def get_existing_data(self):
      try:
          result = self.sheet.values().get(...).execute()
          return result.get('values', [])
      except Exception as e:
          print(...)
          return []
  \<close>
\<close>

definition get_existing_data :: "service \<Rightarrow> spreadsheet \<Rightarrow> string list list \<times> message list" where
  "get_existing_data svc doc = (if get_fails svc then ([], [ReadFailed]) else (table doc, []))"

text \<open>
  \<^verbatim>\<open>
  def get_sheet_id(self):
      try:
          spreadsheet = self.sheet.get(spreadsheetId=self.spreadsheet_id).execute()
          for sheet in spreadsheet['sheets']:
              if sheet['properties']['title'] == self.sheet_name:
                  return sheet['properties']['sheetId']
          return None
      except Exception:
          return None
  \<close>
\<close>

fun find_sheet :: "string \<Rightarrow> (string \<times> int) list \<Rightarrow> int option" where
  "find_sheet name [] = None"
| "find_sheet name ((title, sheet_id) # rest) =
     (if title = name then Some sheet_id else find_sheet name rest)"

definition get_sheet_id :: "sheet_handler \<Rightarrow> service \<Rightarrow> spreadsheet \<Rightarrow> int option" where
  "get_sheet_id h svc doc =
     (if lookup_fails svc then None else find_sheet (sheet_name h) (tabs doc))"

subsection \<open>\<^verbatim>\<open>append_daily_data\<close>\<close>

text \<open>The header labels of the source are Korean; they are translated here.\<close>

definition headers :: "string list" where
  "headers = [''date'', ''unique visitors'', ''page views'', ''total requests'',
              ''cached requests'', ''cache ratio (%)'', ''total data'', ''cached data'',
              ''threats'']"

text \<open>
  \<^verbatim>\<open>
  existing_dates = set()
  if len(existing_data) > 1:
      existing_dates = {row[0] for row in existing_data[1:]}
  \<close>
  \<^verbatim>\<open>row[0]\<close> raises IndexError on a row without cells.
\<close>

fun first_cells :: "string list list \<Rightarrow> error + string list" where
  "first_cells [] = Inr []"
| "first_cells ([] # rows) = Inl IndexError"
| "first_cells ((c # cs) # rows) =
     (case first_cells rows of Inl e \<Rightarrow> Inl e | Inr firsts \<Rightarrow> Inr (c # firsts))"

definition existing_dates_of :: "string list list \<Rightarrow> error + string set" where
  "existing_dates_of existing_data =
     (if 1 < length existing_data
      then (case first_cells (tl existing_data) of Inl e \<Rightarrow> Inl e | Inr firsts \<Rightarrow> Inr (set firsts))
      else Inr {})"

text \<open>The row built for a record that is not a duplicate.\<close>

definition make_row :: "daily_record \<Rightarrow> string \<Rightarrow> error + cell list" where
  "make_row rec fdate =
     (case format_bytes (total_bytes rec) of
        Inl e \<Rightarrow> Inl e
      | Inr total_data \<Rightarrow>
          (case format_bytes (cached_bytes rec) of
             Inl e \<Rightarrow> Inl e
           | Inr cached_data \<Rightarrow>
               Inr [StrCell fdate, IntCell (unique_visitors rec), IntCell (page_views rec),
                    IntCell (total_requests rec), IntCell (cached_requests rec),
                    NumCell (cache_ratio rec), StrCell total_data, StrCell cached_data,
                    IntCell (threats rec)]))"

text \<open>
  \<^verbatim>\<open>
  new_rows = []
  duplicate_count = 0
  for day in daily_data:
      date_obj = datetime.strptime(day[date], '%Y-%m-%d')
      formatted_date = f"=DATE({date_obj.year}, {date_obj.month}, {date_obj.day})"
      if day[date] not in existing_dates:
          row = [...]
          new_rows.append(row)
      else:
          duplicate_count += 1
  \<close>
  The loop, with its two accumulators.
\<close>

fun filter_new ::
  "string set \<Rightarrow> daily_record list \<Rightarrow> cell list list \<Rightarrow> nat \<Rightarrow> error + cell list list \<times> nat"
where
  "filter_new existing_dates [] new_rows duplicate_count = Inr (new_rows, duplicate_count)"
| "filter_new existing_dates (rec # rest) new_rows duplicate_count =
     (case strptime (date rec) of
        Inl e \<Rightarrow> Inl e
      | Inr date_obj \<Rightarrow>
          if date rec \<notin> existing_dates
          then (case make_row rec (formatted_date date_obj) of
                  Inl e \<Rightarrow> Inl e
                | Inr row \<Rightarrow> filter_new existing_dates rest (new_rows @ [row]) duplicate_count)
          else filter_new existing_dates rest new_rows (Suc duplicate_count))"

definition duplicate_line :: "nat \<Rightarrow> message list" where
  "duplicate_line duplicate_count = (if 0 < duplicate_count then [Duplicates duplicate_count] else [])"

text \<open>The handler of the outer \<^verbatim>\<open>try\<close>: print the error and raise it again.\<close>

definition reraise :: "error \<Rightarrow> spreadsheet \<Rightarrow> message list \<Rightarrow> outcome" where
  "reraise e doc msgs = \<lparr>returned = Inl e, sheet_after = doc, printed = msgs @ [AddFailed e]\<rparr>"

text \<open>
  The part after a successful \<^verbatim>\<open>values().append\<close>: the sheet id is looked up, and when
  it is neither \<^verbatim>\<open>None\<close> nor 0 (\<^verbatim>\<open>if sheet_id:\<close>) the date format is written with
  \<^verbatim>\<open>batchUpdate\<close>, inside the same \<^verbatim>\<open>try\<close>.
\<close>

definition format_dates ::
  "sheet_handler \<Rightarrow> service \<Rightarrow> spreadsheet \<Rightarrow> error + spreadsheet" where
  "format_dates h svc doc =
     (case get_sheet_id h svc doc of
        None \<Rightarrow> Inr doc
      | Some sheet_id \<Rightarrow>
          if sheet_id = 0 then Inr doc
          else if format_fails svc then Inl HttpError
          else Inr (doc\<lparr>date_formatted := date_formatted doc @ [sheet_id]\<rparr>))"

text \<open>
  \<^verbatim>\<open>values().append\<close> with \<^verbatim>\<open>INSERT_ROWS\<close> puts the rows after the last row of the
  table; read back, each row is what the service shows for it.
\<close>

definition values_append :: "service \<Rightarrow> spreadsheet \<Rightarrow> cell list list \<Rightarrow> spreadsheet" where
  "values_append svc doc new_rows =
     doc\<lparr>table := table doc @ map (shown svc) new_rows, appended := appended doc @ [new_rows]\<rparr>"

text \<open>
  \<^verbatim>\<open>
  def append_daily_data(self, daily_data):
      if not daily_data:
          print(...); return None
      try:
          existing_data = self.get_existing_data()
          headers = [...]
          if not existing_data:
              existing_data = [headers]
          existing_dates = set()
          if len(existing_data) > 1:
              existing_dates = {row[0] for row in existing_data[1:]}
          daily_data.sort(key=lambda x: x[date])
          new_rows = []; duplicate_count = 0
          for day in daily_data: ...
          if not new_rows:
              print(...)
              if duplicate_count > 0: print(...)
              return None
          result = self.sheet.values().append(..., body={'values': new_rows}).execute()
          sheet_id = self.get_sheet_id()
          if sheet_id:
              self.sheet.batchUpdate(..., body=date_format_request).execute()
          print(...)
          if duplicate_count > 0: print(...)
          return result
      except Exception as e:
          print(...)
          raise
  \<close>
  The outcome is the value returned (or the exception raised), the document after the
  call and the lines printed. A request that fails writes nothing. \<^verbatim>\<open>list.sort\<close> is
  stable, as \<open>sort_key\<close> is; it also reorders the caller's list, which no request
  depends on.
\<close>

definition append_daily_data ::
  "sheet_handler \<Rightarrow> service \<Rightarrow> spreadsheet \<Rightarrow> daily_record list \<Rightarrow> outcome" where
  "append_daily_data h svc doc daily_data =
     (if daily_data = [] then \<lparr>returned = Inr None, sheet_after = doc, printed = [NoData]\<rparr>
      else
        let (fetched, msgs) = get_existing_data svc doc;
            existing_data = (if fetched = [] then [headers] else fetched)
        in case existing_dates_of existing_data of
             Inl e \<Rightarrow> reraise e doc msgs
           | Inr existing_dates \<Rightarrow>
               (case filter_new existing_dates (sort_key date daily_data) [] 0 of
                  Inl e \<Rightarrow> reraise e doc msgs
                | Inr (new_rows, duplicate_count) \<Rightarrow>
                    if new_rows = []
                    then \<lparr>returned = Inr None, sheet_after = doc,
                          printed = msgs @ [NoNewData] @ duplicate_line duplicate_count\<rparr>
                    else if append_fails svc then reraise HttpError doc msgs
                    else
                      let doc1 = values_append svc doc new_rows
                      in case format_dates h svc doc1 of
                           Inl e \<Rightarrow> reraise e doc1 msgs
                         | Inr doc2 \<Rightarrow>
                             \<lparr>returned = Inr (Some (append_reply new_rows)), sheet_after = doc2,
                              printed = msgs @ [Added (length new_rows)] @
                                        duplicate_line duplicate_count\<rparr>))"

subsection \<open>A service that shows dates as \<^verbatim>\<open>yyyy-mm-dd\<close>\<close>

text \<open>
  One way the service may display what was entered, used to run the handler on concrete
  inputs: a \<^verbatim>\<open>=DATE(y, m, d)\<close> formula is shown in the pattern \<^verbatim>\<open>yyyy-mm-dd\<close> that the
  handler requests for the date column, a number in decimal, any other text as it is.
\<close>

definition pad :: "nat \<Rightarrow> string \<Rightarrow> string" where
  "pad n s = replicate (n - length s) CHR ''0'' @ s"

definition show_formula :: "string \<Rightarrow> string" where
  "show_formula s =
     (let body = drop 6 s;
          y = takeWhile is_digit body;
          body1 = drop (length y + 2) body;
          m = takeWhile is_digit body1;
          body2 = drop (length m + 2) body1;
          d = takeWhile is_digit body2
      in pad 4 y @ ''-'' @ pad 2 m @ ''-'' @ pad 2 d)"

fun show_cell :: "cell \<Rightarrow> string" where
  "show_cell (StrCell s) = (if take 6 s = ''=DATE('' then show_formula s else s)"
| "show_cell (IntCell i) = (if i < 0 then ''-'' else []) @ digits (nat \<bar>i\<bar>)"
| "show_cell (NumCell q) = fmt2f q"

definition iso_service :: service where
  "iso_service = \<lparr>shown = map show_cell, get_fails = False, append_fails = False,
                   lookup_fails = False, format_fails = False\<rparr>"

section \<open>Vocabulary of the properties\<close>

text \<open>The unit ladder of \<^verbatim>\<open>format_bytes\<close>: the five units of the loop, then \<^verbatim>\<open>PB\<close>.\<close>

definition ladder :: "string list" where
  "ladder = [''B'', ''KB'', ''MB'', ''GB'', ''TB'', ''PB'']"

text \<open>
  The snapshot the handler works on: the rows it read, or the header row alone when it
  read none (the read failed, or the sheet is empty).
\<close>

definition snapshot :: "service \<Rightarrow> spreadsheet \<Rightarrow> string list list" where
  "snapshot svc doc =
     (let fetched = fst (get_existing_data svc doc)
      in if fetched = [] then [headers] else fetched)"

text \<open>
  A record is well formed when the loop can build its row: the date parses and both byte
  counts convert to a double. \<open>data_row\<close> is that row.
\<close>

definition well_formed :: "daily_record \<Rightarrow> bool" where
  "well_formed r =
     (case strptime (date r) of
        Inl e \<Rightarrow> False
      | Inr date_obj \<Rightarrow>
          (case make_row r (formatted_date date_obj) of Inl e \<Rightarrow> False | Inr row \<Rightarrow> True))"

definition data_row :: "daily_record \<Rightarrow> cell list" where
  "data_row r =
     (case strptime (date r) of
        Inl e \<Rightarrow> []
      | Inr date_obj \<Rightarrow>
          (case make_row r (formatted_date date_obj) of Inl e \<Rightarrow> [] | Inr row \<Rightarrow> row))"

text \<open>
  The cache ratio in the words of the specification: \<open>cached / total * 100\<close> rounded to
  two decimals, in exact arithmetic (ties to even, as \<^verbatim>\<open>round\<close> does), and 0 when the
  total is 0.
\<close>

definition exact_ratio_percent :: "int \<Rightarrow> int \<Rightarrow> rat" where
  "exact_ratio_percent cached requests =
     (if requests = 0 then 0
      else of_int (round_half_even (of_int cached / of_int requests * 100 * 100)) / 100)"

text \<open>
  A tie: \<open>cached / total * 100\<close> lies exactly halfway between two numbers of two
  decimals.
\<close>

definition is_tie :: "int \<Rightarrow> int \<Rightarrow> bool" where
  "is_tie cached requests =
     (let h = of_int cached / of_int requests * 100 * 100 :: rat
      in h - of_int \<lfloor>h\<rfloor> = 1 / 2)"

text \<open>Concrete inputs on which the handler is run.\<close>

definition analytics_handler :: sheet_handler where
  "analytics_handler = \<lparr>spreadsheet_id = ''doc'', sheet_name = ''Analytics''\<rparr>"

definition day_record :: "string \<Rightarrow> daily_record" where
  "day_record d =
     \<lparr>date = d, unique_visitors = 10, page_views = 20, total_requests = 30,
      cached_requests = 15, total_bytes = 1536, cached_bytes = 1024, threats = 0,
      cache_ratio = 50\<rparr>"

definition day_cells :: "string \<Rightarrow> cell list" where
  "day_cells formula =
     [StrCell formula, IntCell 10, IntCell 20, IntCell 30, IntCell 15, NumCell 50,
      StrCell ''1.50 KB'', StrCell ''1.00 KB'', IntCell 0]"

definition day_shown :: "string \<Rightarrow> string list" where
  "day_shown d = [d, ''10'', ''20'', ''30'', ''15'', ''50.00'', ''1.50 KB'', ''1.00 KB'', ''0'']"

definition empty_doc :: spreadsheet where
  "empty_doc = \<lparr>table = [], tabs = [(''Analytics'', 7)], appended = [], date_formatted = []\<rparr>"

definition header_doc :: spreadsheet where
  "header_doc = empty_doc\<lparr>table := [headers]\<rparr>"

definition seeded_doc :: spreadsheet where
  "seeded_doc = empty_doc\<lparr>table := [headers, day_shown ''2024-01-01'']\<rparr>"

section \<open>Properties\<close>

text \<open>The definitions unfolded to run the model on a concrete input.\<close>

lemmas run_defs =
  digit_char_def digits.simps round_half_even_def fmt2f_def nearest_double_def py_float_def
  units_def format_bytes_def is_digit_def digit_val_def is_leap_def days_in_month_def
  strptime_def formatted_date_def get_existing_data_def get_sheet_id_def headers_def
  existing_dates_of_def make_row_def duplicate_line_def reraise_def format_dates_def
  values_append_def append_daily_data_def pad_def show_formula_def iso_service_def
  append_reply_def analytics_handler_def day_record_def day_cells_def day_shown_def
  empty_doc_def header_doc_def seeded_doc_def Let_def

subsection \<open>The scheduling gate\<close>

text \<open>
  C10. For every timestamp, the scheduling gate answers true exactly when the day of the
  month is 1.
\<close>

theorem should_collect_data_iff_first_day:
  "should_collect_data now = (day now = 1)"
  by (simp add: should_collect_data_def)

subsection \<open>The byte formatter\<close>

lemma is_digit_digit_char: "is_digit (digit_char d)"
proof -
  have "d mod 10 < 10" by simp
  then have "d mod 10 = 0 \<or> d mod 10 = 1 \<or> d mod 10 = 2 \<or> d mod 10 = 3 \<or> d mod 10 = 4 \<or>
      d mod 10 = 5 \<or> d mod 10 = 6 \<or> d mod 10 = 7 \<or> d mod 10 = 8 \<or> d mod 10 = 9"
    by arith
  then show ?thesis
    unfolding digit_char_def is_digit_def by (elim disjE) simp_all
qed

lemma digits_all_digit: "list_all is_digit (digits n)"
  by (induction n rule: digits.induct) (subst digits.simps, simp add: is_digit_digit_char)

lemma digits_not_empty: "digits n \<noteq> []"
  by (subst digits.simps) simp

lemma fmt2f_shape:
  "\<exists>whole a b. fmt2f v = (if v < 0 then ''-'' else []) @ whole @ ''.'' @ [a, b] \<and>
     whole \<noteq> [] \<and> list_all is_digit whole \<and> is_digit a \<and> is_digit b"
  unfolding fmt2f_def Let_def
  by (intro exI conjI) (rule refl, simp_all add: digits_not_empty digits_all_digit is_digit_digit_char)

text \<open>
  The loop stops at the \<open>k\<close>-th unit exactly when the value has reached \<open>1024 ^ k\<close> and,
  unless the units are used up, is below \<open>1024 ^ (k + 1)\<close>; it prints the value divided
  by \<open>1024 ^ k\<close>.
\<close>

lemma format_bytes_loop_ladder:
  "k \<le> length us \<Longrightarrow> (0 < k \<longrightarrow> 1024 ^ k \<le> v) \<Longrightarrow> (k < length us \<longrightarrow> v < 1024 ^ Suc k) \<Longrightarrow>
   format_bytes_loop v us = fmt2f (v / 1024 ^ k) @ '' '' @ (us @ [''PB'']) ! k"
proof (induction us arbitrary: v k)
  case Nil
  then show ?case by simp
next
  case (Cons u us)
  show ?case
  proof (cases k)
    case 0
    with Cons.prems show ?thesis by simp
  next
    case (Suc j)
    with Cons.prems have big: "1024 * 1024 ^ j \<le> v" by simp
    have "(1::rat) \<le> 1024 ^ j" by simp
    then have "(1024::rat) \<le> 1024 * 1024 ^ j" by simp
    then have ge: "1024 \<le> v" using big by (rule order_trans)
    have a: "j \<le> length us" using Cons.prems Suc by simp
    have b: "0 < j \<longrightarrow> 1024 ^ j \<le> v / 1024" using big by (simp add: le_divide_eq)
    have c: "j < length us \<longrightarrow> v / 1024 < 1024 ^ Suc j"
      using Cons.prems Suc by (simp add: divide_less_eq)
    from Cons.IH [OF a b c] ge Suc show ?thesis by simp
  qed
qed

lemma nearest_double_exact: "m < 2 ^ 53 \<Longrightarrow> nearest_double m = m"
  by (simp add: nearest_double_def)

lemma py_float_exact: "\<bar>n\<bar> < 2 ^ 53 \<Longrightarrow> py_float n = Inr (of_int n)"
proof -
  assume a: "\<bar>n\<bar> < 2 ^ 53"
  have "(2::int) ^ 53 \<le> 2 ^ 1024" by (rule power_increasing) simp_all
  with a have "\<not> 2 ^ 1024 \<le> \<bar>n\<bar>" by linarith
  with a show ?thesis
    by (auto simp: py_float_def nearest_double_exact Let_def)
qed

text \<open>
  C6. \<^verbatim>\<open>format_bytes\<close> scales a byte count by powers of 1024 through the ladder B, KB,
  MB, GB, TB, PB and prints it with exactly two decimal digits and the unit label:
  0 gives \<^verbatim>\<open>0.00 B\<close>, 1024 gives \<^verbatim>\<open>1.00 KB\<close>, 1536 gives \<^verbatim>\<open>1.50 KB\<close> and
  1024 * 1024 gives \<^verbatim>\<open>1.00 MB\<close>. In general the double \<open>v\<close> of the count is printed
  under the \<open>k\<close>-th unit of the ladder, divided by \<open>1024 ^ k\<close>, when it has reached
  \<open>1024 ^ k\<close> and (below PB) not \<open>1024 ^ (k + 1)\<close>; below \<open>2 ^ 53\<close> the double is the count
  itself; and every printed number is an optional sign, digits, a point and two digits.
\<close>

theorem format_bytes_ladder:
  "format_bytes 0 = Inr ''0.00 B'' \<and>
   format_bytes 1024 = Inr ''1.00 KB'' \<and>
   format_bytes 1536 = Inr ''1.50 KB'' \<and>
   format_bytes (1024 * 1024) = Inr ''1.00 MB'' \<and>
   (\<forall>n v k. py_float n = Inr v \<and> k \<le> 5 \<and> (0 < k \<longrightarrow> 1024 ^ k \<le> v) \<and>
        (k < 5 \<longrightarrow> v < 1024 ^ Suc k) \<longrightarrow>
      format_bytes n = Inr (fmt2f (v / 1024 ^ k) @ '' '' @ ladder ! k)) \<and>
   (\<forall>n. \<bar>n\<bar> < 2 ^ 53 \<longrightarrow> py_float n = Inr (of_int n)) \<and>
   (\<forall>v. \<exists>whole a b. fmt2f v = (if v < 0 then ''-'' else []) @ whole @ ''.'' @ [a, b] \<and>
      whole \<noteq> [] \<and> list_all is_digit whole \<and> is_digit a \<and> is_digit b)"
proof (intro conjI allI impI)
  show "format_bytes 0 = Inr ''0.00 B''" by (simp add: run_defs)
  show "format_bytes 1024 = Inr ''1.00 KB''" by (simp add: run_defs)
  show "format_bytes 1536 = Inr ''1.50 KB''" by (simp add: run_defs)
  show "format_bytes (1024 * 1024) = Inr ''1.00 MB''" by (simp add: run_defs)
next
  fix n v k
  assume h: "py_float n = Inr v \<and> k \<le> 5 \<and> (0 < k \<longrightarrow> 1024 ^ k \<le> v) \<and>
        (k < 5 \<longrightarrow> v < 1024 ^ Suc k)"
  have "format_bytes_loop v units = fmt2f (v / 1024 ^ k) @ '' '' @ (units @ [''PB'']) ! k"
    using h by (intro format_bytes_loop_ladder) (simp_all add: units_def)
  moreover have "units @ [''PB''] = ladder" by (simp add: units_def ladder_def)
  ultimately show "format_bytes n = Inr (fmt2f (v / 1024 ^ k) @ '' '' @ ladder ! k)"
    using h by (simp add: format_bytes_def)
next
  fix n :: int
  assume "\<bar>n\<bar> < 2 ^ 53"
  then show "py_float n = Inr (of_int n)" by (rule py_float_exact)
next
  fix v
  show "\<exists>whole a b. fmt2f v = (if v < 0 then ''-'' else []) @ whole @ ''.'' @ [a, b] \<and>
      whole \<noteq> [] \<and> list_all is_digit whole \<and> is_digit a \<and> is_digit b"
    by (rule fmt2f_shape)
qed

text \<open>The ladder at 3000000 bytes: the third unit, \<^verbatim>\<open>2.86 MB\<close>.\<close>

theorem format_bytes_ladder_witness:
  "py_float 3000000 = Inr 3000000 \<and> (2::nat) \<le> 5 \<and> (1024::rat) ^ 2 \<le> 3000000 \<and>
   (3000000::rat) < 1024 ^ Suc 2 \<and>
   format_bytes 3000000 = Inr (fmt2f (3000000 / 1024 ^ 2) @ '' '' @ ladder ! 2) \<and>
   format_bytes 3000000 = Inr ''2.86 MB''"
proof -
  have p: "py_float 3000000 = Inr 3000000" by (simp add: run_defs)
  have "format_bytes 3000000 = Inr (fmt2f (3000000 / 1024 ^ 2) @ '' '' @ ladder ! 2)"
    using format_bytes_ladder [THEN conjunct2, THEN conjunct2, THEN conjunct2, THEN conjunct2,
        THEN conjunct1, rule_format, of 3000000 3000000 2] p
    by simp
  moreover have "format_bytes 3000000 = Inr ''2.86 MB''" by code_simp
  ultimately show ?thesis using p by simp
qed

subsection \<open>The cache ratio\<close>

text \<open>Rounding to a double: the error is at most half the spacing at the value.\<close>

lemma bit_length_bounds: "0 < n \<Longrightarrow> 2 ^ (bit_length n - 1) \<le> n \<and> n < 2 ^ bit_length n"
proof (induction n rule: bit_length.induct)
  case (1 n)
  show ?case
  proof (cases "n div 2 = 0")
    case True
    with "1.prems" have "n = 1" by presburger
    then show ?thesis by (simp add: bit_length.simps)
  next
    case False
    with "1.prems" have pos: "0 < n div 2" by presburger
    from "1.prems" have "\<not> n \<le> 0" by simp
    from "1.IH" [OF this pos] have
      lo: "2 ^ (bit_length (n div 2) - 1) \<le> n div 2" and hi: "n div 2 < 2 ^ bit_length (n div 2)"
      by simp_all
    from pos have "0 < bit_length (n div 2)"
      by (subst bit_length.simps) simp
    then have bl: "bit_length (n div 2) = Suc (bit_length (n div 2) - 1)" by simp
    have n: "bit_length n = Suc (bit_length (n div 2))"
      using "1.prems" by (subst bit_length.simps) simp
    have "(2::int) ^ (bit_length n - 1) = 2 * 2 ^ (bit_length (n div 2) - 1)"
      unfolding n by (subst bl) simp
    also have "\<dots> \<le> 2 * (n div 2)" using lo by simp
    also have "\<dots> \<le> n" by presburger
    finally have a: "2 ^ (bit_length n - 1) \<le> n" .
    have "n < 2 * (n div 2 + 1)" by presburger
    also have "\<dots> \<le> 2 * 2 ^ bit_length (n div 2)" using hi by simp
    also have "\<dots> = 2 ^ bit_length n" unfolding n by simp
    finally show ?thesis using a by simp
  qed
qed

lemma round_half_even_error: "\<bar>of_int (round_half_even y) - y\<bar> \<le> 1 / 2"
proof -
  have "of_int \<lfloor>y\<rfloor> \<le> y" "y < of_int \<lfloor>y\<rfloor> + 1" by linarith+
  then show ?thesis
    by (auto simp: round_half_even_def Let_def)
qed

lemma round_half_even_nonneg: "0 \<le> y \<Longrightarrow> 0 \<le> round_half_even y"
proof -
  assume "0 \<le> y"
  then have "0 \<le> \<lfloor>y\<rfloor>" by simp
  then show ?thesis by (auto simp: round_half_even_def Let_def)
qed

lemma round_half_even_unique:
  assumes "\<bar>y - of_int k\<bar> < 1 / 2"
  shows "round_half_even y = k"
proof -
  have f: "of_int \<lfloor>y\<rfloor> \<le> y" "y < of_int \<lfloor>y\<rfloor> + 1" by linarith+
  from assms f have "of_int k < (of_int \<lfloor>y\<rfloor> + 2 :: rat)" "(of_int \<lfloor>y\<rfloor> - 1 :: rat) < of_int k"
    by linarith+
  then have "k < \<lfloor>y\<rfloor> + 2" "\<lfloor>y\<rfloor> - 1 < k"
    by (metis of_int_less_iff of_int_add of_int_numeral, metis of_int_less_iff of_int_diff of_int_1)
  then consider "k = \<lfloor>y\<rfloor>" | "k = \<lfloor>y\<rfloor> + 1" by linarith
  then show ?thesis
  proof cases
    case 1
    with assms have "y - of_int \<lfloor>y\<rfloor> < 1 / 2" by linarith
    with 1 show ?thesis by (simp add: round_half_even_def Let_def)
  next
    case 2
    with assms have "\<bar>y - (of_int \<lfloor>y\<rfloor> + 1)\<bar> < 1 / 2" by simp
    then have "1 / 2 < y - of_int \<lfloor>y\<rfloor>" by linarith
    with 2 show ?thesis by (simp add: round_half_even_def Let_def)
  qed
qed

lemma two_powi_shift: "2 ^ n * (2::rat) powi e = 2 powi (e + int n)"
  by (simp add: power_int_add mult.commute)

lemma two_powi_succ: "2 ^ 52 * (2::rat) powi (e + 1) = 2 ^ 53 * 2 powi e"
  by (simp add: power_int_add_1)

text \<open>
  The exponent chosen is the normalising one: unless the subnormal spacing takes over, the
  scaled value lies in \<open>[2 ^ 52, 2 ^ 53)\<close>.
\<close>

lemma double_exponent_normal:
  assumes "0 < x"
  shows "\<exists>e. double_exponent x = max e (- 1074) \<and> 2 ^ 52 * 2 powi e \<le> x \<and> x < 2 ^ 53 * 2 powi e"
proof -
  obtain a b where q: "quotient_of x = (a, b)" by (cases "quotient_of x")
  from quotient_of_denom_pos [OF q] have b: "0 < b" .
  from quotient_of_div [OF q] have x: "x = of_int a / of_int b" .
  from assms b x have a: "0 < a" by (simp add: zero_less_divide_iff)
  let ?est = "int (bit_length a) - int (bit_length b) - 53"
  from bit_length_bounds [OF a] have la: "2 ^ (bit_length a - 1) \<le> a" "a < 2 ^ bit_length a"
    by simp_all
  from a have la1: "0 < bit_length a" by (subst bit_length.simps) simp
  from bit_length_bounds [OF b] have lb: "2 ^ (bit_length b - 1) \<le> b" "b < 2 ^ bit_length b"
    by simp_all
  from b have lb1: "0 < bit_length b" by (subst bit_length.simps) simp
  have "(2::rat) ^ 52 * 2 powi ?est = 2 powi (int (bit_length a - 1) - int (bit_length b))"
    unfolding two_powi_shift using la1 by (intro arg_cong [where f = "\<lambda>e. 2 powi e"]) simp
  also have "\<dots> = 2 ^ (bit_length a - 1) / 2 ^ bit_length b"
    by (simp add: power_int_diff)
  also have "\<dots> \<le> of_int a / of_int b"
  proof (rule frac_le)
    show "(0::rat) \<le> of_int a" using a by simp
    from la(1) have "(of_int (2 ^ (bit_length a - 1)) :: rat) \<le> of_int a"
      by (simp only: of_int_le_iff)
    then show "(2::rat) ^ (bit_length a - 1) \<le> of_int a" by simp
    show "(0::rat) < of_int b" using b by simp
    from lb(2) have "(of_int b :: rat) \<le> of_int (2 ^ bit_length b)" by (simp only: of_int_le_iff)
    then show "(of_int b :: rat) \<le> 2 ^ bit_length b" by simp
  qed
  finally have lower: "2 ^ 52 * 2 powi ?est \<le> x" using x by simp
  have "of_int a / of_int b < (2::rat) ^ bit_length a / 2 ^ (bit_length b - 1)"
  proof (rule frac_less)
    show "(0::rat) \<le> of_int a" using a by simp
    from la(2) have "(of_int a :: rat) < of_int (2 ^ bit_length a)" by (simp only: of_int_less_iff)
    then show "(of_int a :: rat) < 2 ^ bit_length a" by simp
    show "(0::rat) < 2 ^ (bit_length b - 1)" by simp
    from lb(1) have "(of_int (2 ^ (bit_length b - 1)) :: rat) \<le> of_int b"
      by (simp only: of_int_le_iff)
    then show "(2::rat) ^ (bit_length b - 1) \<le> of_int b" by simp
  qed
  also have "\<dots> = 2 powi (int (bit_length a) - int (bit_length b - 1))"
    by (simp add: power_int_diff)
  also have "\<dots> = 2 ^ 53 * 2 powi (?est + 1)"
    unfolding two_powi_shift using lb1 by (intro arg_cong [where f = "\<lambda>e. 2 powi e"]) simp
  finally have upper: "x < 2 ^ 53 * 2 powi (?est + 1)" using x by simp
  let ?e = "if x < 2 ^ 53 * 2 powi ?est then ?est else ?est + 1"
  have e: "2 ^ 52 * 2 powi ?e \<le> x \<and> x < 2 ^ 53 * 2 powi ?e"
  proof (cases "x < 2 ^ 53 * 2 powi ?est")
    case True
    with lower show ?thesis by simp
  next
    case False
    with two_powi_succ [of ?est] upper show ?thesis by simp
  qed
  have "double_exponent x = max ?e (- 1074)"
    by (simp add: double_exponent_def q Let_def)
  with e show ?thesis by blast
qed

lemma double_exponent_spacing:
  assumes "0 < x"
  shows "double_exponent x = - 1074 \<or> 2 ^ 52 * 2 powi double_exponent x \<le> x"
proof -
  from double_exponent_normal [OF assms] obtain e where
    "double_exponent x = max e (- 1074)" "2 ^ 52 * 2 powi e \<le> x" by blast
  then show ?thesis by (cases "e \<le> - 1074") (simp_all add: max_def)
qed

lemma double_exponent_eqI:
  assumes "0 < x" and "2 ^ 52 * 2 powi e \<le> x" and "x < 2 ^ 53 * 2 powi e" and "- 1074 \<le> e"
  shows "double_exponent x = e"
proof -
  from double_exponent_normal [OF assms(1)] obtain e' where
    d: "double_exponent x = max e' (- 1074)" and
    lo: "2 ^ 52 * 2 powi e' \<le> x" and hi: "x < 2 ^ 53 * 2 powi e'" by blast
  have less: "e1 < e2 + 1"
    if "2 ^ 52 * 2 powi e1 \<le> x" "x < 2 ^ 53 * 2 powi e2" for e1 e2
  proof (rule ccontr)
    assume "\<not> e1 < e2 + 1"
    then have "(2::rat) powi (e2 + 1) \<le> 2 powi e1" by (intro power_int_increasing) simp_all
    then have "2 ^ 52 * (2::rat) powi (e2 + 1) \<le> 2 ^ 52 * 2 powi e1" by simp
    with two_powi_succ [of e2] that show False by simp
  qed
  from less [OF lo assms(3)] less [OF assms(2) hi] have "e' = e" by simp
  with d assms(4) show ?thesis by (simp add: max_def)
qed

lemma round_double_eval:
  assumes "0 < x" and "2 ^ 52 * 2 powi e \<le> x" and "x < 2 ^ 53 * 2 powi e" and "- 1074 \<le> e"
  shows "round_double x = of_int (round_half_even (x / 2 powi e)) * 2 powi e"
  using assms(1) double_exponent_eqI [OF assms] by (simp add: round_double_def Let_def)

lemma floor_rat_numeral: "\<lfloor>(numeral a :: rat) / numeral b\<rfloor> = numeral a div numeral b"
  by (metis floor_divide_of_int_eq of_int_numeral)

lemma round_double_nonneg: "0 \<le> x \<Longrightarrow> 0 \<le> round_double x"
  by (auto simp: round_double_def Let_def intro!: mult_nonneg_nonneg round_half_even_nonneg)

lemma round_double_error:
  assumes "0 \<le> x" and "x \<le> 2 powi j" and "- 1022 \<le> j"
  shows "\<bar>round_double x - x\<bar> \<le> 2 powi (j - 53)"
proof (cases "x = 0")
  case True
  then show ?thesis by (simp add: round_double_def)
next
  case False
  with assms(1) have pos: "0 < x" by simp
  let ?e = "double_exponent x"
  let ?m = "round_half_even (x / 2 powi ?e)"
  have p: "(0::rat) < 2 powi ?e" by simp
  from pos have rd: "round_double x = of_int ?m * 2 powi ?e"
    by (simp add: round_double_def Let_def)
  have "round_double x - x = (of_int ?m - x / 2 powi ?e) * 2 powi ?e"
    unfolding rd using p by (simp add: left_diff_distrib)
  then have "\<bar>round_double x - x\<bar> = \<bar>of_int ?m - x / 2 powi ?e\<bar> * \<bar>2 powi ?e\<bar>"
    by (simp only: abs_mult)
  also have "\<dots> = \<bar>of_int ?m - x / 2 powi ?e\<bar> * 2 powi ?e"
    using p by simp
  also have "\<dots> \<le> 1 / 2 * 2 powi ?e"
    using round_half_even_error [of "x / 2 powi ?e"] p by (intro mult_right_mono) simp_all
  finally have err: "\<bar>round_double x - x\<bar> \<le> 2 powi ?e / 2" by simp
  have "2 powi ?e / 2 \<le> (2::rat) powi (j - 53)"
    using double_exponent_spacing [OF pos]
  proof
    assume "?e = - 1074"
    then have "2 powi ?e / 2 = (2::rat) powi (- 1075)"
      by (simp add: power_int_minus_divide)
    also have "\<dots> \<le> 2 powi (j - 53)"
      using assms(3) by (intro power_int_increasing) simp_all
    finally show ?thesis .
  next
    assume "2 ^ 52 * 2 powi ?e \<le> x"
    with assms(2) have "2 ^ 52 * 2 powi ?e \<le> (2::rat) powi j" by simp
    then have "2 powi ?e / 2 \<le> (2::rat) powi j / 2 ^ 53" by (simp add: field_simps)
    also have "\<dots> = 2 powi (j - 53)" by (simp add: power_int_diff)
    finally show ?thesis .
  qed
  with err show ?thesis by simp
qed

text \<open>
  For counts with \<open>0 \<le> cached \<le> total\<close> and \<open>0 < total\<close> no operation overflows: the
  ratio is the double of \<open>k / 100\<close>, where \<open>k\<close> is the rounded number of hundredths of
  the double product.
\<close>

lemma cache_ratio_steps:
  assumes "0 \<le> c" and "c \<le> t" and "0 < t"
  defines "x \<equiv> of_int c / of_int t :: rat"
  defines "p \<equiv> round_double (round_double x * 100)"
  defines "k \<equiv> round_half_even (p * 100)"
  shows "cache_ratio_percent c t = Inr (Finite (round_double (of_int k / 100)))"
    and "0 \<le> p" and "\<bar>p - x * 100\<bar> \<le> 1 / 2 ^ 46 + 100 / 2 ^ 53"
    and "0 \<le> x" and "x \<le> 1"
proof -
  from assms(1-3) show x: "0 \<le> x" "x \<le> 1" by (simp_all add: x_def)
  let ?q = "round_double x"
  have q0: "0 \<le> ?q" using x(1) by (rule round_double_nonneg)
  have "\<bar>?q - x\<bar> \<le> 2 powi (0 - 53)"
    using x by (intro round_double_error) simp_all
  then have qe: "\<bar>?q - x\<bar> \<le> 1 / 9007199254740992" by (simp add: power_int_minus_divide)
  with x have q2: "?q \<le> 2" by linarith
  have big: "(129::rat) < 2 ^ 1024"
  proof -
    have "(129::rat) < 2 ^ 8" by simp
    also have "\<dots> \<le> 2 ^ 1024" by (rule power_increasing) simp_all
    finally show ?thesis .
  qed
  with q0 q2 have "\<not> 2 ^ 1024 \<le> \<bar>?q\<bar>" by linarith
  with assms(3) have td: "true_div c t = Inr ?q"
    by (simp add: true_div_def x_def Let_def)
  have y0: "0 \<le> ?q * 100" using q0 by simp
  from qe x have y128: "?q * 100 \<le> 128" by linarith
  then have y7: "?q * 100 \<le> 2 powi 7" by simp
  have "\<bar>p - ?q * 100\<bar> \<le> 2 powi (7 - 53)"
    unfolding p_def using y0 y7 by (intro round_double_error) simp_all
  then have pe: "\<bar>p - ?q * 100\<bar> \<le> 1 / 70368744177664" by (simp add: power_int_minus_divide)
  show p0: "0 \<le> p" unfolding p_def using y0 by (rule round_double_nonneg)
  from pe y128 have "p \<le> 129" by linarith
  with big have "\<not> 2 ^ 1024 \<le> p" by linarith
  moreover from p0 big have "\<not> p \<le> - (2 ^ 1024)" by linarith
  ultimately have fm: "float_mul ?q 100 = Finite p"
    by (simp add: float_mul_def p_def Let_def)
  from assms(3) td fm show "cache_ratio_percent c t = Inr (Finite (round_double (of_int k / 100)))"
    by (simp add: cache_ratio_percent_def k_def)
  from pe qe have "\<bar>p - x * 100\<bar> \<le> 1 / 70368744177664 + 100 / 9007199254740992" by linarith
  then show "\<bar>p - x * 100\<bar> \<le> 1 / 2 ^ 46 + 100 / 2 ^ 53" by simp
qed

lemma round_half_even_strict:
  assumes "y - of_int \<lfloor>y\<rfloor> \<noteq> 1 / 2"
  shows "\<bar>of_int (round_half_even y) - y\<bar> < 1 / 2"
proof -
  have "of_int \<lfloor>y\<rfloor> \<le> y" "y < of_int \<lfloor>y\<rfloor> + 1" by linarith+
  with assms show ?thesis
    by (auto simp: round_half_even_def Let_def)
qed

lemma away_from_tie:
  fixes c t :: int
  assumes "0 < t" and "t < 2 ^ 37" and "\<not> is_tie c t"
  defines "h \<equiv> of_int c / of_int t * 100 * 100 :: rat"
  shows "\<bar>of_int (round_half_even h) - h\<bar> \<le> 1 / 2 - 1 / 2 ^ 38"
proof -
  let ?K = "round_half_even h"
  let ?n = "?K * t - 10000 * c"
  from assms(3) have "h - of_int \<lfloor>h\<rfloor> \<noteq> 1 / 2"
    by (simp add: is_tie_def h_def Let_def)
  from round_half_even_strict [OF this] have strict: "\<bar>of_int ?K - h\<bar> < 1 / 2" .
  have tpos: "(0::rat) < of_int t" using assms(1) by simp
  have ht: "h * of_int t = of_int (10000 * c)"
    using tpos by (simp add: h_def)
  have diff: "(of_int ?K - h) * of_int t = of_int ?n"
    by (simp add: left_diff_distrib ht)
  then have "\<bar>(of_int ?K - h) * of_int t\<bar> = \<bar>of_int ?n :: rat\<bar>" by (simp only:)
  then have "\<bar>of_int ?K - h\<bar> * \<bar>of_int t :: rat\<bar> = of_int \<bar>?n\<bar>"
    by (simp only: abs_mult of_int_abs)
  then have eq: "\<bar>of_int ?K - h\<bar> * of_int t = of_int \<bar>?n\<bar>"
    using tpos by simp
  from strict tpos have "\<bar>of_int ?K - h\<bar> * of_int t < 1 / 2 * of_int t"
    by (intro mult_strict_right_mono)
  with eq have "(of_int \<bar>?n\<bar> :: rat) * 2 < of_int t" by simp
  then have "(of_int (\<bar>?n\<bar> * 2) :: rat) < of_int t" by simp
  then have "\<bar>?n\<bar> * 2 < t" by (simp only: of_int_less_iff)
  with assms(2) have "\<bar>?n\<bar> * 274877906944 \<le> 137438953471 * t" by simp
  then have "(of_int (\<bar>?n\<bar> * 274877906944) :: rat) \<le> of_int (137438953471 * t)"
    by (simp only: of_int_le_iff)
  then have "(of_int \<bar>?n\<bar> :: rat) * 274877906944 \<le> 137438953471 * of_int t" by simp
  with eq have "\<bar>of_int ?K - h\<bar> * of_int t * 274877906944 \<le> 137438953471 * of_int t"
    by simp
  with tpos have "\<bar>of_int ?K - h\<bar> * 274877906944 \<le> 137438953471" by simp
  then have "\<bar>of_int ?K - h\<bar> \<le> 137438953471 / 274877906944" by (simp add: field_simps)
  then show ?thesis by simp
qed

text \<open>
  C5 (amended). For non-negative integers \<open>cached \<le> total\<close>: when the total is 0 the
  ratio is 0; when it is positive the ratio is the double nearest to a number \<open>k / 100\<close>
  with \<open>0 \<le> k \<le> 10000\<close> that lies within \<open>0.005 + 2 ^ - 45\<close> of
  \<open>cached / total * 100\<close> (the ratio itself within \<open>0.005 + 2 ^ - 44\<close>); and for a total
  below \<open>2 ^ 37\<close> it is the double nearest to \<open>cached / total * 100\<close> rounded to two
  decimals, unless that value is a tie.
\<close>

theorem cache_ratio_percent_rounding:
  assumes "0 \<le> cached" and "cached \<le> requests"
  shows "(requests = 0 \<longrightarrow> cache_ratio_percent cached requests = Inr (Finite 0)) \<and>
     (0 < requests \<longrightarrow>
        (\<exists>k. 0 \<le> k \<and> k \<le> 10000 \<and>
           cache_ratio_percent cached requests = Inr (Finite (round_double (of_int k / 100))) \<and>
           \<bar>of_int k / 100 - of_int cached / of_int requests * 100 :: rat\<bar>
             \<le> 1 / 200 + 1 / 2 ^ 45 \<and>
           \<bar>round_double (of_int k / 100) - of_int cached / of_int requests * 100\<bar>
             \<le> 1 / 200 + 1 / 2 ^ 44) \<and>
        (requests < 2 ^ 37 \<and> \<not> is_tie cached requests \<longrightarrow>
           cache_ratio_percent cached requests =
             Inr (Finite (round_double (exact_ratio_percent cached requests)))))"
proof (intro conjI impI)
  assume "requests = 0"
  then show "cache_ratio_percent cached requests = Inr (Finite 0)"
    by (simp add: cache_ratio_percent_def)
next
  assume pos: "0 < requests"
  define x :: rat where "x = of_int cached / of_int requests"
  define p where "p = round_double (round_double x * 100)"
  define k where "k = round_half_even (p * 100)"
  note st = cache_ratio_steps [OF assms pos, folded x_def, folded p_def, folded k_def]
  from st(3) have pe: "\<bar>p - x * 100\<bar> \<le> 1 / 70368744177664 + 100 / 9007199254740992" by simp
  from round_half_even_error [of "p * 100"] have ke: "\<bar>of_int k - p * 100\<bar> \<le> 1 / 2"
    by (simp add: k_def)
  from st(2) have k0: "0 \<le> k" unfolding k_def by (intro round_half_even_nonneg) simp
  from ke pe have kx: "\<bar>of_int k / 100 - x * 100\<bar> \<le> 1 / 200 + 1 / 35184372088832"
    by linarith
  from kx st(5) have "(of_int k :: rat) < 10001" by linarith
  then have "(of_int k :: rat) < of_int 10001" by simp
  then have "k < 10001" by (simp only: of_int_less_iff)
  then have k1: "k \<le> 10000" by simp
  then have "(of_int k :: rat) \<le> of_int 10000" by (simp only: of_int_le_iff)
  then have "(of_int k :: rat) / 100 \<le> 128" by simp
  then have "(of_int k :: rat) / 100 \<le> 2 powi 7" by simp
  moreover from k0 have "(0::rat) \<le> of_int k / 100" by simp
  ultimately have "\<bar>round_double (of_int k / 100) - of_int k / 100\<bar> \<le> 2 powi (7 - 53)"
    by (intro round_double_error) simp_all
  then have re: "\<bar>round_double (of_int k / 100) - of_int k / 100\<bar> \<le> 1 / 70368744177664"
    by (simp add: power_int_minus_divide)
  from re kx have rx: "\<bar>round_double (of_int k / 100) - x * 100\<bar> \<le> 1 / 200 + 1 / 17592186044416"
    by linarith
  show "\<exists>k. 0 \<le> k \<and> k \<le> 10000 \<and>
           cache_ratio_percent cached requests = Inr (Finite (round_double (of_int k / 100))) \<and>
           \<bar>of_int k / 100 - of_int cached / of_int requests * 100 :: rat\<bar>
             \<le> 1 / 200 + 1 / 2 ^ 45 \<and>
           \<bar>round_double (of_int k / 100) - of_int cached / of_int requests * 100\<bar>
             \<le> 1 / 200 + 1 / 2 ^ 44"
    using k0 k1 st(1) kx rx unfolding x_def by (intro exI [of _ k]) simp
  assume t: "requests < 2 ^ 37 \<and> \<not> is_tie cached requests"
  define h where "h = x * 100 * 100"
  from t pos have "\<bar>of_int (round_half_even h) - h\<bar> \<le> 1 / 2 - 1 / 2 ^ 38"
    unfolding h_def x_def by (intro away_from_tie) simp_all
  then have away: "\<bar>of_int (round_half_even h) - h\<bar> \<le> 1 / 2 - 1 / 274877906944" by simp
  from pe have "\<bar>p * 100 - h\<bar> \<le> 100 / 70368744177664 + 10000 / 9007199254740992"
    unfolding h_def by linarith
  with away have "\<bar>p * 100 - of_int (round_half_even h)\<bar> < 1 / 2" by linarith
  from round_half_even_unique [OF this] have kk: "k = round_half_even h" by (simp add: k_def)
  from pos have "exact_ratio_percent cached requests = of_int (round_half_even h) / 100"
    by (simp add: exact_ratio_percent_def h_def x_def)
  then have ex: "exact_ratio_percent cached requests = of_int k / 100" unfolding kk .
  show "cache_ratio_percent cached requests =
      Inr (Finite (round_double (exact_ratio_percent cached requests)))"
    unfolding ex by (rule st(1))
qed

text \<open>The doubles of the computation at 23 / 160, step by step.\<close>

lemmas ratio_eval = round_half_even_def floor_rat_numeral Let_def

lemma tie_quotient: "round_double (23 / 160) = 2589569785738035 / 18014398509481984"
  by (subst round_double_eval [where e = "- 55"]) (simp_all add: ratio_eval)

lemma tie_product:
  "round_double (2589569785738035 / 18014398509481984 * 100) =
     8092405580431359 / 562949953421312"
  by (subst round_double_eval [where e = "- 49"]) (simp_all add: ratio_eval)

lemma tie_hundredths: "round_half_even (8092405580431359 / 562949953421312 * 100) = 1437"
  by (simp add: ratio_eval)

lemma double_14_37: "round_double (1437 / 100) = 8089590830664253 / 562949953421312"
  by (subst round_double_eval [where e = "- 49"]) (simp_all add: ratio_eval)

lemma double_14_38: "round_double (1438 / 100) = 8095220330198467 / 562949953421312"
  by (subst round_double_eval [where e = "- 49"]) (simp_all add: ratio_eval)

text \<open>
  C5 (as stated) fails at 23 cached requests of 160: \<open>23 / 160 * 100\<close> is 14.375, which
  rounds to 14.38, but the double quotient is below 0.14375, the double product is
  14.374999999999998 and the code stores 14.37: neither 14.38 nor the double nearest to
  it.
\<close>

theorem cache_ratio_percent_tie_counterexample:
  "(0::int) \<le> 23 \<and> (23::int) \<le> 160 \<and> (0::int) < 160 \<and>
   exact_ratio_percent 23 160 = 1438 / 100 \<and>
   cache_ratio_percent 23 160 = Inr (Finite (round_double (1437 / 100))) \<and>
   round_double (1437 / 100) = 8089590830664253 / 562949953421312 \<and>
   cache_ratio_percent 23 160 \<noteq> Inr (Finite (exact_ratio_percent 23 160)) \<and>
   cache_ratio_percent 23 160 \<noteq> Inr (Finite (round_double (exact_ratio_percent 23 160)))"
proof -
  have e: "exact_ratio_percent 23 160 = 1438 / 100"
    by (simp add: exact_ratio_percent_def ratio_eval)
  have "cache_ratio_percent 23 160 =
      Inr (Finite (round_double (of_int (round_half_even
        (round_double (round_double (of_int 23 / of_int 160) * 100) * 100)) / 100)))"
    by (rule cache_ratio_steps(1)) simp_all
  then have c: "cache_ratio_percent 23 160 = Inr (Finite (round_double (1437 / 100)))"
    by (simp only: of_int_numeral tie_quotient tie_product tie_hundredths)
  show ?thesis
    unfolding c e double_14_37 double_14_38 by simp
qed

text \<open>
  Beyond \<open>2 ^ 37\<close> the ratio can miss the exact rounding without a tie: the error of the
  product is then enough to cross the midpoint.
\<close>

lemma large_quotient:
  "round_double (750423152438 / 1031722214117) = 6551386377935861 / 9007199254740992"
  by (subst round_double_eval [where e = "- 53"]) (simp_all add: ratio_eval)

lemma large_product:
  "round_double (6551386377935861 / 9007199254740992 * 100) =
     5118270607762391 / 70368744177664"
  by (subst round_double_eval [where e = "- 46"]) (simp_all add: ratio_eval)

lemma large_hundredths: "round_half_even (5118270607762391 / 70368744177664 * 100) = 7273"
  by (simp add: ratio_eval)

lemma cache_ratio_percent_beyond_2_37:
  "\<not> is_tie 750423152438 1031722214117 \<and>
   exact_ratio_percent 750423152438 1031722214117 = 7274 / 100 \<and>
   cache_ratio_percent 750423152438 1031722214117 = Inr (Finite (round_double (7273 / 100)))"
proof -
  have "cache_ratio_percent 750423152438 1031722214117 =
      Inr (Finite (round_double (of_int (round_half_even
        (round_double (round_double (of_int 750423152438 / of_int 1031722214117) * 100) * 100))
          / 100)))"
    by (rule cache_ratio_steps(1)) simp_all
  then have "cache_ratio_percent 750423152438 1031722214117 =
      Inr (Finite (round_double (7273 / 100)))"
    by (simp only: of_int_numeral large_quotient large_product large_hundredths)
  moreover have "\<not> is_tie 750423152438 1031722214117"
    by (simp add: is_tie_def ratio_eval)
  moreover have "exact_ratio_percent 750423152438 1031722214117 = 7274 / 100"
    by (simp add: exact_ratio_percent_def ratio_eval)
  ultimately show ?thesis by simp
qed

text \<open>One request of three cached: 33.33; and no request at all: 0.\<close>

theorem cache_ratio_percent_rounding_witness:
  "(0::int) \<le> 1 \<and> (1::int) \<le> 3 \<and> (0::int) < 3 \<and> (3::int) < 2 ^ 37 \<and> \<not> is_tie 1 3 \<and>
   exact_ratio_percent 1 3 = 3333 / 100 \<and>
   cache_ratio_percent 1 3 = Inr (Finite (round_double (3333 / 100))) \<and>
   cache_ratio_percent 0 0 = Inr (Finite 0)"
proof -
  have t: "\<not> is_tie 1 3" by (simp add: is_tie_def ratio_eval)
  have e: "exact_ratio_percent 1 3 = 3333 / 100"
    by (simp add: exact_ratio_percent_def ratio_eval)
  have "cache_ratio_percent 1 3 = Inr (Finite (round_double (exact_ratio_percent 1 3)))"
    using cache_ratio_percent_rounding [of 1 3] t by simp
  moreover have "cache_ratio_percent 0 0 = Inr (Finite 0)"
    using cache_ratio_percent_rounding [of 0 0] by simp
  ultimately show ?thesis using t e by simp
qed

subsection \<open>The loop over the records\<close>

lemma make_row_data_row:
  "strptime (date r) = Inr date_obj \<Longrightarrow> make_row r (formatted_date date_obj) = Inr row \<Longrightarrow>
   row = data_row r \<and> well_formed r"
  by (simp add: data_row_def well_formed_def)

lemma well_formed_row:
  "well_formed r \<Longrightarrow> \<exists>date_obj. strptime (date r) = Inr date_obj \<and>
     make_row r (formatted_date date_obj) = Inr (data_row r)"
  by (auto simp: data_row_def well_formed_def split: sum.splits)

lemma filter_new_sound:
  "filter_new ex recs acc n = Inr (rows, dup) \<Longrightarrow>
   rows = acc @ map data_row [r \<leftarrow> recs. date r \<notin> ex] \<and>
   dup = n + length [r \<leftarrow> recs. date r \<in> ex]"
proof (induction recs arbitrary: acc n)
  case Nil
  then show ?case by simp
next
  case (Cons r recs)
  from Cons.prems obtain date_obj where p: "strptime (date r) = Inr date_obj"
    by (auto split: sum.splits)
  show ?case
  proof (cases "date r \<in> ex")
    case True
    with Cons.prems p have "filter_new ex recs acc (Suc n) = Inr (rows, dup)" by simp
    from Cons.IH [OF this] True show ?thesis by simp
  next
    case False
    with Cons.prems p obtain row where
      m: "make_row r (formatted_date date_obj) = Inr row" and
      f: "filter_new ex recs (acc @ [row]) n = Inr (rows, dup)"
      by (auto split: sum.splits)
    from make_row_data_row [OF p m] have "row = data_row r" by simp
    with Cons.IH [OF f] False show ?thesis by simp
  qed
qed

lemma filter_new_complete:
  "\<forall>r \<in> set recs. well_formed r \<Longrightarrow>
   filter_new ex recs acc n =
     Inr (acc @ map data_row [r \<leftarrow> recs. date r \<notin> ex], n + length [r \<leftarrow> recs. date r \<in> ex])"
proof (induction recs arbitrary: acc n)
  case Nil
  then show ?case by simp
next
  case (Cons r recs)
  then have "well_formed r" by simp
  from well_formed_row [OF this] obtain date_obj where
    p: "strptime (date r) = Inr date_obj" and
    m: "make_row r (formatted_date date_obj) = Inr (data_row r)" by blast
  from Cons.prems have rest: "\<forall>r \<in> set recs. well_formed r" by simp
  show ?case
    using p m Cons.IH [OF rest] by simp
qed

lemma format_dates_frame:
  "format_dates h svc doc = Inr doc' \<Longrightarrow>
   table doc' = table doc \<and> appended doc' = appended doc \<and> tabs doc' = tabs doc"
  by (auto simp: format_dates_def split: option.splits if_splits)

lemma format_dates_error:
  "format_dates h svc doc = Inl e \<Longrightarrow> e = HttpError \<and> format_fails svc"
  by (auto simp: format_dates_def split: option.splits if_splits)

lemma format_dates_ok: "\<not> format_fails svc \<Longrightarrow> \<exists>doc'. format_dates h svc doc = Inr doc'"
  by (auto simp: format_dates_def split: option.splits if_splits)

text \<open>What a call does once the loop has produced at least one new row.\<close>

lemma append_writes:
  assumes "recs \<noteq> []"
    and "existing_dates_of (snapshot svc doc) = Inr ex"
    and "filter_new ex (sort_key date recs) [] 0 = Inr (rows, dup)"
    and "rows \<noteq> []"
    and "\<not> append_fails svc"
  shows "appended (sheet_after (append_daily_data h svc doc recs)) = appended doc @ [rows]"
    and "table (sheet_after (append_daily_data h svc doc recs)) = table doc @ map (shown svc) rows"
    and "format_dates h svc (values_append svc doc rows) = Inr doc' \<Longrightarrow>
         append_daily_data h svc doc recs =
           \<lparr>returned = Inr (Some (append_reply rows)), sheet_after = doc',
            printed = snd (get_existing_data svc doc) @ [Added (length rows)] @ duplicate_line dup\<rparr>"
    and "format_dates h svc (values_append svc doc rows) = Inl e \<Longrightarrow>
         returned (append_daily_data h svc doc recs) = Inl e"
proof -
  let ?doc1 = "values_append svc doc rows"
  have unfold: "append_daily_data h svc doc recs =
      (case format_dates h svc ?doc1 of
         Inl e \<Rightarrow> reraise e ?doc1 (snd (get_existing_data svc doc))
       | Inr doc2 \<Rightarrow>
           \<lparr>returned = Inr (Some (append_reply rows)), sheet_after = doc2,
            printed = snd (get_existing_data svc doc) @ [Added (length rows)] @ duplicate_line dup\<rparr>)"
    using assms
    by (simp add: append_daily_data_def snapshot_def Let_def split_beta split: sum.splits)
  show "appended (sheet_after (append_daily_data h svc doc recs)) = appended doc @ [rows]"
    unfolding unfold
    by (auto simp: reraise_def values_append_def dest: format_dates_frame split: sum.splits)
  show "table (sheet_after (append_daily_data h svc doc recs)) = table doc @ map (shown svc) rows"
    unfolding unfold
    by (auto simp: reraise_def values_append_def dest: format_dates_frame split: sum.splits)
  show "format_dates h svc ?doc1 = Inr doc' \<Longrightarrow>
         append_daily_data h svc doc recs =
           \<lparr>returned = Inr (Some (append_reply rows)), sheet_after = doc',
            printed = snd (get_existing_data svc doc) @ [Added (length rows)] @ duplicate_line dup\<rparr>"
    unfolding unfold by simp
  show "format_dates h svc ?doc1 = Inl e \<Longrightarrow> returned (append_daily_data h svc doc recs) = Inl e"
    unfolding unfold by (simp add: reraise_def)
qed

text \<open>Every other path leaves the document as it was.\<close>

lemma append_written_cases:
  assumes "appended (sheet_after (append_daily_data h svc doc recs)) \<noteq> appended doc"
  shows "\<exists>ex rows dup. recs \<noteq> [] \<and> existing_dates_of (snapshot svc doc) = Inr ex \<and>
           filter_new ex (sort_key date recs) [] 0 = Inr (rows, dup) \<and> rows \<noteq> [] \<and>
           \<not> append_fails svc"
proof (rule ccontr)
  assume no: "\<not> ?thesis"
  have "sheet_after (append_daily_data h svc doc recs) = doc"
    using no
    by (auto simp: append_daily_data_def snapshot_def Let_def split_beta reraise_def
        split: sum.splits if_splits)
  with assms show False by simp
qed

lemma filter_new_well_formed:
  "filter_new ex recs acc n = Inr (rows, dup) \<Longrightarrow> r \<in> set recs \<Longrightarrow> date r \<notin> ex \<Longrightarrow> well_formed r"
proof (induction recs arbitrary: acc n)
  case Nil
  then show ?case by simp
next
  case (Cons a recs)
  from Cons.prems(1) obtain date_obj where p: "strptime (date a) = Inr date_obj"
    by (auto split: sum.splits)
  show ?case
  proof (cases "date a \<in> ex")
    case True
    with Cons.prems p have "filter_new ex recs acc (Suc n) = Inr (rows, dup)" and "r \<in> set recs"
      by auto
    then show ?thesis using Cons.IH Cons.prems(3) by blast
  next
    case False
    with Cons.prems(1) p obtain row where
      m: "make_row a (formatted_date date_obj) = Inr row" and
      f: "filter_new ex recs (acc @ [row]) n = Inr (rows, dup)"
      by (auto split: sum.splits)
    show ?thesis
    proof (cases "r = a")
      case True
      with make_row_data_row [OF p m] show ?thesis by simp
    next
      case False
      with Cons.prems(2) have "r \<in> set recs" by simp
      with f Cons.IH Cons.prems(3) show ?thesis by blast
    qed
  qed
qed

lemma data_row_shape:
  "well_formed r \<Longrightarrow>
   \<exists>date_obj total_data cached_data.
     strptime (date r) = Inr date_obj \<and> format_bytes (total_bytes r) = Inr total_data \<and>
     format_bytes (cached_bytes r) = Inr cached_data \<and>
     data_row r =
       [StrCell (formatted_date date_obj), IntCell (unique_visitors r), IntCell (page_views r),
        IntCell (total_requests r), IntCell (cached_requests r), NumCell (cache_ratio r),
        StrCell total_data, StrCell cached_data, IntCell (threats r)]"
  by (auto simp: well_formed_def data_row_def make_row_def split: sum.splits)

lemma data_row_not_header: "well_formed r \<Longrightarrow> data_row r \<noteq> map StrCell headers"
proof -
  assume "well_formed r"
  from data_row_shape [OF this] obtain date_obj where
    "hd (data_row r) = StrCell (formatted_date date_obj)" by auto
  moreover have "hd (map StrCell headers) = StrCell ''date''" by (simp add: headers_def)
  moreover have "formatted_date date_obj \<noteq> ''date''"
    by (cases date_obj) (simp add: formatted_date_def)
  ultimately show ?thesis by auto
qed

lemma two_in_filter:
  assumes "i < j" "j < length xs" "P (xs ! i)" "P (xs ! j)"
  shows "2 \<le> length (filter P xs)"
proof -
  have xs: "xs = take j xs @ xs ! j # drop (Suc j) xs"
    using assms(2) by (simp add: id_take_nth_drop)
  have "xs ! i \<in> set (take j xs)"
    using assms(1,2) by (auto simp: in_set_conv_nth intro!: exI [of _ i])
  with assms(3) have "filter P (take j xs) \<noteq> []"
    by (auto simp: filter_empty_conv)
  then have "1 \<le> length (filter P (take j xs))"
    by (cases "filter P (take j xs)") simp_all
  moreover have "length (filter P xs) =
      length (filter P (take j xs)) + length (filter P (xs ! j # drop (Suc j) xs))"
    by (subst xs) simp
  ultimately show ?thesis using assms(4) by simp
qed

lemma length_filter_sort_key:
  "length (filter P (sort_key f xs)) = length (filter P xs)"
  by (simp add: filter_sort)

lemma snapshot_no_rows:
  "fst (get_existing_data svc doc) = [] \<Longrightarrow>
   snapshot svc doc = [headers] \<and> existing_dates_of (snapshot svc doc) = Inr {}"
  by (simp add: snapshot_def existing_dates_of_def)

lemma format_dates_table_blind:
  assumes "lookup_fails svc' = lookup_fails svc" and "format_fails svc' = format_fails svc"
    and "tabs doc' = tabs doc"
  shows "isl (format_dates h svc' doc') = isl (format_dates h svc doc)"
  using assms by (auto simp: format_dates_def get_sheet_id_def split: option.splits)

lemma append_loop_error:
  "recs \<noteq> [] \<Longrightarrow> existing_dates_of (snapshot svc doc) = Inr ex \<Longrightarrow>
   filter_new ex (sort_key date recs) [] 0 = Inl e \<Longrightarrow>
   append_daily_data h svc doc recs = reraise e doc (snd (get_existing_data svc doc))"
  by (simp add: append_daily_data_def snapshot_def Let_def split_beta)

lemma append_no_rows:
  "recs \<noteq> [] \<Longrightarrow> existing_dates_of (snapshot svc doc) = Inr ex \<Longrightarrow>
   filter_new ex (sort_key date recs) [] 0 = Inr ([], dup) \<Longrightarrow>
   append_daily_data h svc doc recs =
     \<lparr>returned = Inr None, sheet_after = doc,
      printed = snd (get_existing_data svc doc) @ [NoNewData] @ duplicate_line dup\<rparr>"
  by (simp add: append_daily_data_def snapshot_def Let_def split_beta)

lemma append_request_fails:
  "recs \<noteq> [] \<Longrightarrow> existing_dates_of (snapshot svc doc) = Inr ex \<Longrightarrow>
   filter_new ex (sort_key date recs) [] 0 = Inr (rows, dup) \<Longrightarrow> rows \<noteq> [] \<Longrightarrow>
   append_fails svc \<Longrightarrow>
   append_daily_data h svc doc recs = reraise HttpError doc (snd (get_existing_data svc doc))"
  by (simp add: append_daily_data_def snapshot_def Let_def split_beta)

lemma day_record_well_formed: "well_formed (day_record ''2024-01-01'')"
  by (simp add: well_formed_def run_defs)

lemma day_record_row: "data_row (day_record ''2024-01-01'') = day_cells ''=DATE(2024, 1, 1)''"
  by (simp add: data_row_def run_defs)

lemma first_cells_append:
  "first_cells xs = Inr a \<Longrightarrow> first_cells ys = Inr b \<Longrightarrow> first_cells (xs @ ys) = Inr (a @ b)"
proof (induction xs arbitrary: a rule: first_cells.induct)
  case 1
  then show ?case by simp
next
  case (2 rows)
  then show ?case by simp
next
  case (3 c cs rows)
  then show ?case by (auto split: sum.splits)
qed

lemma first_cells_shown:
  "\<forall>r \<in> set rs. \<exists>rest. shown svc (data_row r) = date r # rest \<Longrightarrow>
   first_cells (map (shown svc) (map data_row rs)) = Inr (map date rs)"
  by (induction rs) auto

lemma existing_dates_after_append:
  assumes "table_rows \<noteq> []" and "existing_dates_of table_rows = Inr ex"
    and "\<forall>r \<in> set rs. \<exists>rest. shown svc (data_row r) = date r # rest"
  shows "existing_dates_of (table_rows @ map (shown svc) (map data_row rs)) =
     Inr (ex \<union> date ` set rs)"
proof (cases "1 < length table_rows")
  case True
  with assms(2) obtain cs where cs: "first_cells (tl table_rows) = Inr cs" "ex = set cs"
    by (auto simp: existing_dates_of_def split: sum.splits)
  from first_cells_append [OF cs(1) first_cells_shown [OF assms(3)]] True assms(1) cs(2)
  show ?thesis by (simp add: existing_dates_of_def)
next
  case False
  with assms(1) obtain row where t: "table_rows = [row]" by (cases table_rows) auto
  with assms(2) have "ex = {}" by (simp add: existing_dates_of_def)
  with t first_cells_shown [OF assms(3)] show ?thesis
    by (cases rs) (simp_all add: existing_dates_of_def)
qed

text \<open>
  On a sheet that has a first row, read without failure, the protocol is idempotent as
  long as the service shows each appended row with the date of its record in the first
  cell: whatever the first call did, the second call writes nothing and counts every
  record as a duplicate.
\<close>

lemma second_call_is_no_op:
  assumes "table doc \<noteq> []" and "\<not> get_fails svc" and "\<not> append_fails svc" and "recs \<noteq> []"
    and "\<forall>r \<in> set recs. well_formed r \<and> (\<exists>rest. shown svc (data_row r) = date r # rest)"
    and "existing_dates_of (table doc) = Inr ex"
  shows "append_daily_data h svc (sheet_after (append_daily_data h svc doc recs)) recs =
     \<lparr>returned = Inr None, sheet_after = sheet_after (append_daily_data h svc doc recs),
      printed = [NoNewData, Duplicates (length recs)]\<rparr>"
proof -
  let ?sorted = "sort_key date recs"
  let ?new = "[r \<leftarrow> ?sorted. date r \<notin> ex]"
  let ?doc1 = "sheet_after (append_daily_data h svc doc recs)"
  have g: "get_existing_data svc doc = (table doc, [])" "get_existing_data svc ?doc1 = (table ?doc1, [])"
    using assms(2) by (simp_all add: get_existing_data_def)
  have snap: "snapshot svc doc = table doc" using assms(1) g by (simp add: snapshot_def)
  from assms(5) have wf: "\<forall>r \<in> set ?sorted. well_formed r" by simp
  have f: "filter_new ex ?sorted [] 0 =
      Inr (map data_row ?new, length [r \<leftarrow> ?sorted. date r \<in> ex])"
    using filter_new_complete [OF wf, of ex "[]" 0] by simp
  have ex': "existing_dates_of (snapshot svc doc) = Inr ex" using snap assms(6) by simp
  have tbl: "table ?doc1 = table doc @ map (shown svc) (map data_row ?new)"
  proof (cases "?new = []")
    case True
    with f have "filter_new ex ?sorted [] 0 = Inr ([], length [r \<leftarrow> ?sorted. date r \<in> ex])"
      by simp
    from append_no_rows [OF assms(4) ex' this, of h] True show ?thesis by simp
  next
    case False
    then have "map data_row ?new \<noteq> []" by simp
    from append_writes(2) [OF assms(4) ex' f this assms(3), of h] show ?thesis .
  qed
  have sh: "\<forall>r \<in> set ?new. \<exists>rest. shown svc (data_row r) = date r # rest"
    using assms(5) by simp
  have ex1: "existing_dates_of (table ?doc1) = Inr (ex \<union> date ` set ?new)"
    unfolding tbl by (rule existing_dates_after_append [OF assms(1,6) sh])
  have ne1: "table ?doc1 \<noteq> []" using tbl assms(1) by simp
  then have snap1: "snapshot svc ?doc1 = table ?doc1" using g by (simp add: snapshot_def)
  have all_in: "\<forall>r \<in> set ?sorted. date r \<in> ex \<union> date ` set ?new" by auto
  then have none: "[r \<leftarrow> ?sorted. date r \<notin> ex \<union> date ` set ?new] = []"
    and every: "[r \<leftarrow> ?sorted. date r \<in> ex \<union> date ` set ?new] = ?sorted"
    by (simp_all add: filter_empty_conv filter_id_conv)
  have f1: "filter_new (ex \<union> date ` set ?new) ?sorted [] 0 = Inr ([], length recs)"
    using filter_new_complete [OF wf, of "ex \<union> date ` set ?new" "[]" 0] none every by simp
  have ex1': "existing_dates_of (snapshot svc ?doc1) = Inr (ex \<union> date ` set ?new)"
    using snap1 ex1 by simp
  from append_no_rows [OF assms(4) ex1' f1, of h] g(2) assms(4) show ?thesis
    by (cases recs) (simp_all add: duplicate_line_def)
qed

subsection \<open>The append protocol\<close>

text \<open>
  C7. For an empty list of records the handler issues no write and leaves the document
  as it was; it returns \<^verbatim>\<open>None\<close> and prints that there is nothing to add.
\<close>

theorem append_empty_no_write:
  "append_daily_data h svc doc [] =
     \<lparr>returned = Inr None, sheet_after = doc, printed = [NoData]\<rparr>"
  by (simp add: append_daily_data_def)

text \<open>
  C1. Two calls in succession with the same records should leave the rows of the first
  call and report every record as a duplicate in the second. On a sheet without a header
  row the handler does otherwise: the first call writes the two rows and no header, the
  second call takes the first data row for the header, appends the record of 2024-01-01
  again and counts one duplicate instead of two.
\<close>

theorem second_call_appends_again:
  "append_daily_data analytics_handler iso_service empty_doc
     [day_record ''2024-01-02'', day_record ''2024-01-01''] =
     \<lparr>returned = Inr (Some \<lparr>updatedRows = 2, updatedCells = 18\<rparr>),
      sheet_after =
        empty_doc\<lparr>table := [day_shown ''2024-01-01'', day_shown ''2024-01-02''],
          appended := [[day_cells ''=DATE(2024, 1, 1)'', day_cells ''=DATE(2024, 1, 2)'']],
          date_formatted := [7]\<rparr>,
      printed = [Added 2]\<rparr> \<and>
   append_daily_data analytics_handler iso_service
     (sheet_after (append_daily_data analytics_handler iso_service empty_doc
        [day_record ''2024-01-02'', day_record ''2024-01-01'']))
     [day_record ''2024-01-02'', day_record ''2024-01-01''] =
     \<lparr>returned = Inr (Some \<lparr>updatedRows = 1, updatedCells = 9\<rparr>),
      sheet_after =
        empty_doc\<lparr>table := [day_shown ''2024-01-01'', day_shown ''2024-01-02'',
                               day_shown ''2024-01-01''],
          appended := [[day_cells ''=DATE(2024, 1, 1)'', day_cells ''=DATE(2024, 1, 2)''],
                       [day_cells ''=DATE(2024, 1, 1)'']],
          date_formatted := [7, 7]\<rparr>,
      printed = [Added 1, Duplicates 1]\<rparr>"
  by (simp add: run_defs)

text \<open>The same two calls on a sheet that holds the header row.\<close>

lemma second_call_is_no_op_on_header_doc:
  "append_daily_data analytics_handler iso_service
     (sheet_after (append_daily_data analytics_handler iso_service header_doc
        [day_record ''2024-01-02'', day_record ''2024-01-01'']))
     [day_record ''2024-01-02'', day_record ''2024-01-01''] =
   \<lparr>returned = Inr None,
    sheet_after = header_doc\<lparr>table := [headers, day_shown ''2024-01-01'', day_shown ''2024-01-02''],
       appended := [[day_cells ''=DATE(2024, 1, 1)'', day_cells ''=DATE(2024, 1, 2)'']],
       date_formatted := [7]\<rparr>,
    printed = [NoNewData, Duplicates 2]\<rparr>"
  by (simp add: run_defs)

text \<open>
  C2. A failure of the date-format step should not fail the call. When the sheet id is
  found and the \<^verbatim>\<open>batchUpdate\<close> fails, the handler raises although the row has been
  appended.
\<close>

theorem format_failure_raises_after_append:
  "append_daily_data analytics_handler (iso_service\<lparr>format_fails := True\<rparr>) header_doc
     [day_record ''2024-01-01''] =
     \<lparr>returned = Inl HttpError,
      sheet_after =
        header_doc\<lparr>table := [headers, day_shown ''2024-01-01''],
          appended := [[day_cells ''=DATE(2024, 1, 1)'']]\<rparr>,
      printed = [AddFailed HttpError]\<rparr>"
  by (simp add: run_defs)

text \<open>The other half of the step does hold: a failed sheet-id lookup is swallowed.\<close>

lemma lookup_failure_is_swallowed:
  "lookup_fails svc \<Longrightarrow> format_dates h svc doc = Inr doc"
  by (simp add: format_dates_def get_sheet_id_def)

text \<open>
  C3 (as stated) fails: the value returned does not carry the number of duplicates. On
  the same document, a call with no duplicate and a call with one duplicate return the
  same value; only the printed lines differ.
\<close>

theorem result_blind_to_duplicates:
  "returned (append_daily_data analytics_handler iso_service seeded_doc
      [day_record ''2024-01-02'']) =
   returned (append_daily_data analytics_handler iso_service seeded_doc
      [day_record ''2024-01-01'', day_record ''2024-01-02'']) \<and>
   printed (append_daily_data analytics_handler iso_service seeded_doc
      [day_record ''2024-01-02'']) = [Added 1] \<and>
   printed (append_daily_data analytics_handler iso_service seeded_doc
      [day_record ''2024-01-01'', day_record ''2024-01-02'']) = [Added 1, Duplicates 1]"
  by (simp add: run_defs)

text \<open>
  C3 (amended). Every call that appends at least one row and returns, returns the reply
  of the batch append, which counts the rows written; the number of rows added and, when
  it is positive, the number of duplicates skipped are printed, not returned.
\<close>

theorem append_returns_write_confirmation:
  assumes "appended (sheet_after (append_daily_data h svc doc recs)) \<noteq> appended doc"
    and "returned (append_daily_data h svc doc recs) = Inr res"
  shows "\<exists>ex rows. existing_dates_of (snapshot svc doc) = Inr ex \<and>
      rows = map data_row [r \<leftarrow> sort_key date recs. date r \<notin> ex] \<and> rows \<noteq> [] \<and>
      appended (sheet_after (append_daily_data h svc doc recs)) = appended doc @ [rows] \<and>
      res = Some (append_reply rows) \<and> updatedRows (append_reply rows) = length rows \<and>
      printed (append_daily_data h svc doc recs) =
        snd (get_existing_data svc doc) @ [Added (length rows)] @
        duplicate_line (length [r \<leftarrow> recs. date r \<in> ex])"
proof -
  from append_written_cases [OF assms(1)] obtain ex rows dup where
    ne: "recs \<noteq> []" and ex: "existing_dates_of (snapshot svc doc) = Inr ex" and
    f: "filter_new ex (sort_key date recs) [] 0 = Inr (rows, dup)" and
    rows: "rows \<noteq> []" and ok: "\<not> append_fails svc"
    by blast
  from filter_new_sound [OF f] have
    r: "rows = map data_row [r \<leftarrow> sort_key date recs. date r \<notin> ex]" and
    d: "dup = length [r \<leftarrow> recs. date r \<in> ex]"
    by (simp_all add: length_filter_sort_key)
  note w = append_writes [OF ne ex f rows ok, of h]
  obtain doc' where fd: "format_dates h svc (values_append svc doc rows) = Inr doc'"
  proof (cases "format_dates h svc (values_append svc doc rows)")
    case (Inl e)
    from w(4) [OF this] assms(2) show ?thesis by simp
  next
    case (Inr doc')
    with that show ?thesis .
  qed
  from w(3) [OF fd] assms(2) have "res = Some (append_reply rows)" and
    "printed (append_daily_data h svc doc recs) =
       snd (get_existing_data svc doc) @ [Added (length rows)] @ duplicate_line dup"
    by simp_all
  with ex r rows w(1) d show ?thesis
    by (auto simp: append_reply_def)
qed

text \<open>One new record and one duplicate on a sheet that holds 2024-01-01.\<close>

theorem append_returns_write_confirmation_witness:
  "appended (sheet_after (append_daily_data analytics_handler iso_service seeded_doc
      [day_record ''2024-01-01'', day_record ''2024-01-02''])) \<noteq> appended seeded_doc \<and>
   returned (append_daily_data analytics_handler iso_service seeded_doc
      [day_record ''2024-01-01'', day_record ''2024-01-02'']) =
     Inr (Some \<lparr>updatedRows = 1, updatedCells = 9\<rparr>) \<and>
   (\<exists>ex rows. existing_dates_of (snapshot iso_service seeded_doc) = Inr ex \<and>
      rows = map data_row
        [r \<leftarrow> sort_key date [day_record ''2024-01-01'', day_record ''2024-01-02'']. date r \<notin> ex] \<and>
      rows \<noteq> [] \<and>
      appended (sheet_after (append_daily_data analytics_handler iso_service seeded_doc
        [day_record ''2024-01-01'', day_record ''2024-01-02''])) = appended seeded_doc @ [rows] \<and>
      Some \<lparr>updatedRows = 1, updatedCells = 9\<rparr> = Some (append_reply rows) \<and>
      updatedRows (append_reply rows) = length rows \<and>
      printed (append_daily_data analytics_handler iso_service seeded_doc
        [day_record ''2024-01-01'', day_record ''2024-01-02'']) =
        snd (get_existing_data iso_service seeded_doc) @ [Added (length rows)] @
        duplicate_line
          (length [r \<leftarrow> [day_record ''2024-01-01'', day_record ''2024-01-02'']. date r \<in> ex]))"
proof -
  have a: "appended (sheet_after (append_daily_data analytics_handler iso_service seeded_doc
      [day_record ''2024-01-01'', day_record ''2024-01-02''])) \<noteq> appended seeded_doc"
    by (simp add: run_defs)
  have b: "returned (append_daily_data analytics_handler iso_service seeded_doc
      [day_record ''2024-01-01'', day_record ''2024-01-02'']) =
     Inr (Some \<lparr>updatedRows = 1, updatedCells = 9\<rparr>)"
    by (simp add: run_defs)
  from a b append_returns_write_confirmation [OF a b] show ?thesis by blast
qed

text \<open>
  C4. When reading the sheet fails the handler goes on with the header row alone: it
  returns what it returns on an empty sheet and writes the same batches; and when every
  record is well formed and the append request succeeds, every record is appended, none
  is counted as a duplicate, and (if the date-format write does not fail) the call
  returns the reply of the append.
\<close>

theorem read_failure_is_empty_store:
  assumes "get_fails svc"
  shows "snapshot svc doc = [headers] \<and>
     returned (append_daily_data h svc doc recs) =
       returned (append_daily_data h (svc\<lparr>get_fails := False\<rparr>) (doc\<lparr>table := []\<rparr>) recs) \<and>
     appended (sheet_after (append_daily_data h svc doc recs)) =
       appended (sheet_after
         (append_daily_data h (svc\<lparr>get_fails := False\<rparr>) (doc\<lparr>table := []\<rparr>) recs)) \<and>
     (recs \<noteq> [] \<and> (\<forall>r \<in> set recs. well_formed r) \<and> \<not> append_fails svc \<longrightarrow>
        appended (sheet_after (append_daily_data h svc doc recs)) =
          appended doc @ [map data_row (sort_key date recs)] \<and>
        table (sheet_after (append_daily_data h svc doc recs)) =
          table doc @ map (shown svc) (map data_row (sort_key date recs)) \<and>
        (\<not> format_fails svc \<longrightarrow>
           returned (append_daily_data h svc doc recs) =
             Inr (Some (append_reply (map data_row (sort_key date recs)))) \<and>
           printed (append_daily_data h svc doc recs) = [ReadFailed, Added (length recs)]))"
proof (intro conjI impI)
  let ?svc' = "svc\<lparr>get_fails := False\<rparr>" and ?doc' = "doc\<lparr>table := []\<rparr>"
  have g: "fst (get_existing_data svc doc) = []" "snd (get_existing_data svc doc) = [ReadFailed]"
    using assms by (simp_all add: get_existing_data_def)
  have g': "fst (get_existing_data ?svc' ?doc') = []"
    by (simp add: get_existing_data_def)
  note s = snapshot_no_rows [OF g(1)] and s' = snapshot_no_rows [OF g']
  note e = conjunct2 [OF s] and e' = conjunct2 [OF s']
  show "snapshot svc doc = [headers]" using s by simp
  show "returned (append_daily_data h svc doc recs) =
       returned (append_daily_data h ?svc' ?doc' recs)"
  proof (cases "recs = []")
    case True
    then show ?thesis by (simp add: append_daily_data_def)
  next
    case ne: False
    show ?thesis
    proof (cases "filter_new {} (sort_key date recs) [] 0")
      case (Inl e)
      from append_loop_error [OF ne e Inl, of h] append_loop_error [OF ne e' Inl, of h]
      show ?thesis by (simp add: reraise_def)
    next
      case (Inr p)
      obtain rows dup where p: "p = (rows, dup)" by (cases p)
      show ?thesis
      proof (cases "rows = [] \<or> append_fails svc")
        case True
        from Inr p have f: "filter_new {} (sort_key date recs) [] 0 = Inr (rows, dup)" by simp
        show ?thesis
        proof (cases "rows = []")
          case True
          with f have f0: "filter_new {} (sort_key date recs) [] 0 = Inr ([], dup)" by simp
          from append_no_rows [OF ne e f0, of h] append_no_rows [OF ne e' f0, of h]
          show ?thesis by simp
        next
          case False
          with True have af: "append_fails svc" "append_fails ?svc'" by simp_all
          from append_request_fails [OF ne e f False af(1), of h]
            append_request_fails [OF ne e' f False af(2), of h]
          show ?thesis by (simp add: reraise_def)
        qed
      next
        case False
        then have rows: "rows \<noteq> []" and ok: "\<not> append_fails svc" "\<not> append_fails ?svc'"
          by simp_all
        from Inr p have f: "filter_new {} (sort_key date recs) [] 0 = Inr (rows, dup)" by simp
        note w = append_writes [OF ne conjunct2 [OF s] f rows ok(1), of h]
        note w' = append_writes [OF ne conjunct2 [OF s'] f rows ok(2), of h]
        have "isl (format_dates h ?svc' (values_append ?svc' ?doc' rows)) =
              isl (format_dates h svc (values_append svc doc rows))"
          by (rule format_dates_table_blind) (simp_all add: values_append_def)
        then show ?thesis
          using w(3,4) w'(3,4)
          by (cases "format_dates h svc (values_append svc doc rows)";
              cases "format_dates h ?svc' (values_append ?svc' ?doc' rows)")
             (auto dest: format_dates_error)
      qed
    qed
  qed
  show "appended (sheet_after (append_daily_data h svc doc recs)) =
       appended (sheet_after (append_daily_data h ?svc' ?doc' recs))"
  proof (cases "recs = []")
    case True
    then show ?thesis by (simp add: append_daily_data_def)
  next
    case ne: False
    show ?thesis
    proof (cases "filter_new {} (sort_key date recs) [] 0")
      case (Inl e)
      from append_loop_error [OF ne e Inl, of h] append_loop_error [OF ne e' Inl, of h]
      show ?thesis by (simp add: reraise_def)
    next
      case (Inr p)
      obtain rows dup where p: "p = (rows, dup)" by (cases p)
      show ?thesis
      proof (cases "rows = [] \<or> append_fails svc")
        case True
        from Inr p have f: "filter_new {} (sort_key date recs) [] 0 = Inr (rows, dup)" by simp
        show ?thesis
        proof (cases "rows = []")
          case True
          with f have f0: "filter_new {} (sort_key date recs) [] 0 = Inr ([], dup)" by simp
          from append_no_rows [OF ne e f0, of h] append_no_rows [OF ne e' f0, of h]
          show ?thesis by simp
        next
          case False
          with True have af: "append_fails svc" "append_fails ?svc'" by simp_all
          from append_request_fails [OF ne e f False af(1), of h]
            append_request_fails [OF ne e' f False af(2), of h]
          show ?thesis by (simp add: reraise_def)
        qed
      next
        case False
        then have rows: "rows \<noteq> []" and ok: "\<not> append_fails svc" "\<not> append_fails ?svc'"
          by simp_all
        from Inr p have f: "filter_new {} (sort_key date recs) [] 0 = Inr (rows, dup)" by simp
        note w = append_writes [OF ne conjunct2 [OF s] f rows ok(1), of h]
        note w' = append_writes [OF ne conjunct2 [OF s'] f rows ok(2), of h]
        from w(1) w'(1) show ?thesis by simp
      qed
    qed
  qed
next
  assume h: "recs \<noteq> [] \<and> (\<forall>r \<in> set recs. well_formed r) \<and> \<not> append_fails svc"
  let ?rows = "map data_row (sort_key date recs)"
  have g: "fst (get_existing_data svc doc) = []" "snd (get_existing_data svc doc) = [ReadFailed]"
    using assms by (simp_all add: get_existing_data_def)
  note s = snapshot_no_rows [OF g(1)]
  from h have wf: "\<forall>r \<in> set (sort_key date recs). well_formed r" by simp
  have f: "filter_new {} (sort_key date recs) [] 0 = Inr (?rows, 0)"
    using filter_new_complete [OF wf, of "{}" "[]" 0] by simp
  have "length ?rows = length recs" by simp
  with h have rows: "?rows \<noteq> []" by (metis length_0_conv)
  from h have ne: "recs \<noteq> []" and ok: "\<not> append_fails svc" by simp_all
  note w = append_writes [OF ne conjunct2 [OF s] f rows ok, of h]
  show "appended (sheet_after (append_daily_data h svc doc recs)) = appended doc @ [?rows]"
    by (rule w(1))
  show "table (sheet_after (append_daily_data h svc doc recs)) = table doc @ map (shown svc) ?rows"
    by (rule w(2))
  assume nf: "\<not> format_fails svc"
  from format_dates_ok [OF nf] obtain doc' where
    "format_dates h svc (values_append svc doc ?rows) = Inr doc'" by blast
  from w(3) [OF this] g(2)
  show "returned (append_daily_data h svc doc recs) = Inr (Some (append_reply ?rows))"
    and "printed (append_daily_data h svc doc recs) = [ReadFailed, Added (length recs)]"
    by (simp_all add: duplicate_line_def)
qed

text \<open>A failed read on a sheet that already holds 2024-01-01: the record is appended again.\<close>

theorem read_failure_is_empty_store_witness:
  "get_fails (iso_service\<lparr>get_fails := True\<rparr>) \<and>
   well_formed (day_record ''2024-01-01'') \<and>
   \<not> append_fails (iso_service\<lparr>get_fails := True\<rparr>) \<and>
   \<not> format_fails (iso_service\<lparr>get_fails := True\<rparr>) \<and>
   table seeded_doc = [headers, day_shown ''2024-01-01''] \<and>
   returned (append_daily_data analytics_handler (iso_service\<lparr>get_fails := True\<rparr>) seeded_doc
     [day_record ''2024-01-01'']) = Inr (Some \<lparr>updatedRows = 1, updatedCells = 9\<rparr>) \<and>
   printed (append_daily_data analytics_handler (iso_service\<lparr>get_fails := True\<rparr>) seeded_doc
     [day_record ''2024-01-01'']) = [ReadFailed, Added 1] \<and>
   appended (sheet_after (append_daily_data analytics_handler (iso_service\<lparr>get_fails := True\<rparr>)
     seeded_doc [day_record ''2024-01-01''])) = [[day_cells ''=DATE(2024, 1, 1)'']]"
proof -
  let ?svc = "iso_service\<lparr>get_fails := True\<rparr>"
  have gf: "get_fails ?svc" by simp
  have ok: "\<not> append_fails ?svc" "\<not> format_fails ?svc" by (simp_all add: iso_service_def)
  have tb: "table seeded_doc = [headers, day_shown ''2024-01-01'']" "appended seeded_doc = []"
    by (simp_all add: seeded_doc_def empty_doc_def)
  note t = read_failure_is_empty_store [OF gf, of seeded_doc analytics_handler
      "[day_record ''2024-01-01'']", THEN conjunct2, THEN conjunct2, THEN conjunct2]
  from t ok day_record_well_formed have
    "returned (append_daily_data analytics_handler ?svc seeded_doc [day_record ''2024-01-01'']) =
       Inr (Some (append_reply (map data_row (sort_key date [day_record ''2024-01-01'']))))"
    "printed (append_daily_data analytics_handler ?svc seeded_doc [day_record ''2024-01-01'']) =
       [ReadFailed, Added (length [day_record ''2024-01-01''])]"
    "appended (sheet_after (append_daily_data analytics_handler ?svc seeded_doc
       [day_record ''2024-01-01''])) =
       appended seeded_doc @ [map data_row (sort_key date [day_record ''2024-01-01''])]"
    by simp_all
  then show ?thesis
    using gf ok tb day_record_well_formed
    by (simp add: day_record_row append_reply_def day_cells_def)
qed

text \<open>
  C8. Two records of the argument with the same date, absent from the dates read from
  the sheet, are both appended: the batch is the rows of all records whose date is not
  among the dates read, so it holds as many rows of that date as the argument holds
  records of it, at least two.
\<close>

theorem same_date_records_both_appended:
  assumes "i < j" and "j < length recs"
    and "date (recs ! i) = d" and "date (recs ! j) = d"
    and "existing_dates_of (snapshot svc doc) = Inr ex" and "d \<notin> ex"
    and "\<forall>r \<in> set recs. well_formed r" and "\<not> append_fails svc"
  shows "\<exists>rows. appended (sheet_after (append_daily_data h svc doc recs)) = appended doc @ [rows] \<and>
      rows = map data_row [r \<leftarrow> sort_key date recs. date r \<notin> ex] \<and>
      length [r \<leftarrow> [r \<leftarrow> sort_key date recs. date r \<notin> ex]. date r = d] =
        length [r \<leftarrow> recs. date r = d] \<and>
      2 \<le> length [r \<leftarrow> recs. date r = d]"
proof -
  let ?new = "[r \<leftarrow> sort_key date recs. date r \<notin> ex]"
  from assms(1,2) have ne: "recs \<noteq> []" by auto
  from assms(7) have wf: "\<forall>r \<in> set (sort_key date recs). well_formed r" by simp
  have f: "filter_new ex (sort_key date recs) [] 0 =
      Inr (map data_row ?new, length [r \<leftarrow> sort_key date recs. date r \<in> ex])"
    using filter_new_complete [OF wf, of ex "[]" 0] by simp
  have two: "2 \<le> length [r \<leftarrow> recs. date r = d]"
    using assms(1-4) by (intro two_in_filter [of i j]) simp_all
  have same: "[r \<leftarrow> ?new. date r = d] = [r \<leftarrow> sort_key date recs. date r = d]"
    using assms(6) by (auto simp: filter_filter intro!: filter_cong)
  then have count: "length [r \<leftarrow> ?new. date r = d] = length [r \<leftarrow> recs. date r = d]"
    by (simp add: length_filter_sort_key)
  with two have "[r \<leftarrow> ?new. date r = d] \<noteq> []" by auto
  then have "?new \<noteq> []" by (auto simp: filter_empty_conv)
  then have rows: "map data_row ?new \<noteq> []" by simp
  from append_writes(1) [OF ne assms(5) f rows assms(8), of h] count two
  show ?thesis by simp
qed

text \<open>Twice the record of 2024-01-01 on a sheet that holds the header only.\<close>

theorem same_date_records_both_appended_witness:
  "(0::nat) < 1 \<and> 1 < length [day_record ''2024-01-01'', day_record ''2024-01-01''] \<and>
   existing_dates_of (snapshot iso_service header_doc) = Inr {} \<and>
   well_formed (day_record ''2024-01-01'') \<and> \<not> append_fails iso_service \<and>
   appended (sheet_after (append_daily_data analytics_handler iso_service header_doc
     [day_record ''2024-01-01'', day_record ''2024-01-01''])) =
     [[day_cells ''=DATE(2024, 1, 1)'', day_cells ''=DATE(2024, 1, 1)'']]"
proof -
  let ?recs = "[day_record ''2024-01-01'', day_record ''2024-01-01'']"
  have ex: "existing_dates_of (snapshot iso_service header_doc) = Inr {}"
    by (simp add: snapshot_def run_defs)
  have ok: "\<not> append_fails iso_service" by (simp add: iso_service_def)
  have wf: "\<forall>r \<in> set ?recs. well_formed r" using day_record_well_formed by simp
  have d: "date (?recs ! 0) = ''2024-01-01''" "date (?recs ! 1) = ''2024-01-01''"
    by (simp_all add: day_record_def)
  have "\<exists>rows. appended (sheet_after (append_daily_data analytics_handler iso_service header_doc
      ?recs)) = appended header_doc @ [rows] \<and>
      rows = map data_row [r \<leftarrow> sort_key date ?recs. date r \<notin> {}] \<and>
      length [r \<leftarrow> [r \<leftarrow> sort_key date ?recs. date r \<notin> {}]. date r = ''2024-01-01''] =
        length [r \<leftarrow> ?recs. date r = ''2024-01-01''] \<and>
      2 \<le> length [r \<leftarrow> ?recs. date r = ''2024-01-01'']"
    by (rule same_date_records_both_appended [OF _ _ d ex _ wf ok]) simp_all
  then have "appended (sheet_after (append_daily_data analytics_handler iso_service header_doc
      ?recs)) = appended header_doc @ [map data_row [r \<leftarrow> sort_key date ?recs. date r \<notin> {}]]"
    by blast
  then show ?thesis
    using ex ok day_record_well_formed
    by (simp add: day_record_row header_doc_def empty_doc_def)
qed

text \<open>
  C9. When the read returns no rows the header row exists in memory only: either the
  call leaves the document as it was, or its single batch is the rows of the sorted
  records, each of nine cells starting with a \<^verbatim>\<open>=DATE(...)\<close> formula, none of them
  the header row, and the sheet gains exactly these rows.
\<close>

theorem header_never_written:
  assumes "fst (get_existing_data svc doc) = []"
  shows "snapshot svc doc = [headers] \<and>
     (sheet_after (append_daily_data h svc doc recs) = doc \<or>
      (\<exists>rows. rows = map data_row (sort_key date recs) \<and>
         appended (sheet_after (append_daily_data h svc doc recs)) = appended doc @ [rows] \<and>
         table (sheet_after (append_daily_data h svc doc recs)) =
           table doc @ map (shown svc) rows \<and>
         length rows = length recs \<and>
         map StrCell headers \<notin> set rows \<and>
         list_all (\<lambda>row. length row = 9 \<and>
            (\<exists>date_obj. hd row = StrCell (formatted_date date_obj))) rows))"
proof -
  note s = snapshot_no_rows [OF assms]
  let ?out = "append_daily_data h svc doc recs"
  have "sheet_after ?out = doc \<or>
      (\<exists>rows. rows = map data_row (sort_key date recs) \<and>
         appended (sheet_after ?out) = appended doc @ [rows] \<and>
         table (sheet_after ?out) = table doc @ map (shown svc) rows \<and>
         length rows = length recs \<and>
         map StrCell headers \<notin> set rows \<and>
         list_all (\<lambda>row. length row = 9 \<and>
            (\<exists>date_obj. hd row = StrCell (formatted_date date_obj))) rows)"
  proof (cases "appended (sheet_after ?out) = appended doc")
    case True
    have "sheet_after ?out = doc"
    proof (rule ccontr)
      assume n: "sheet_after ?out \<noteq> doc"
      then have ne: "recs \<noteq> []" by (auto simp: append_daily_data_def)
      show False
      proof (cases "filter_new {} (sort_key date recs) [] 0")
        case (Inl e)
        from append_loop_error [OF ne conjunct2 [OF s] Inl, of h] n show False
          by (simp add: reraise_def)
      next
        case (Inr p)
        obtain rows dup where p: "p = (rows, dup)" by (cases p)
        with Inr have f: "filter_new {} (sort_key date recs) [] 0 = Inr (rows, dup)" by simp
        show False
        proof (cases "rows = []")
          case True
          with f have "filter_new {} (sort_key date recs) [] 0 = Inr ([], dup)" by simp
          from append_no_rows [OF ne conjunct2 [OF s] this, of h] n show False by simp
        next
          case rows: False
          show False
          proof (cases "append_fails svc")
            case True
            from append_request_fails [OF ne conjunct2 [OF s] f rows True, of h] n
            show False by (simp add: reraise_def)
          next
            case False
            from append_writes(1) [OF ne conjunct2 [OF s] f rows False, of h] True
            show False by simp
          qed
        qed
      qed
    qed
    then show ?thesis ..
  next
    case False
    from append_written_cases [OF False] s obtain rows dup where
      ne: "recs \<noteq> []" and f: "filter_new {} (sort_key date recs) [] 0 = Inr (rows, dup)" and
      rows: "rows \<noteq> []" and ok: "\<not> append_fails svc"
      by auto
    from filter_new_sound [OF f] have r: "rows = map data_row (sort_key date recs)" by simp
    have wf: "\<And>x. x \<in> set (sort_key date recs) \<Longrightarrow> well_formed x"
      using filter_new_well_formed [OF f] by simp
    note w = append_writes [OF ne conjunct2 [OF s] f rows ok, of h]
    have nh: "map StrCell headers \<notin> set rows"
    proof
      assume "map StrCell headers \<in> set rows"
      then obtain x where "x \<in> set (sort_key date recs)" "data_row x = map StrCell headers"
        unfolding r by auto
      with wf data_row_not_header show False by blast
    qed
    have shape: "list_all (\<lambda>row. length row = 9 \<and>
            (\<exists>date_obj. hd row = StrCell (formatted_date date_obj))) rows"
      unfolding r list_all_iff
    proof
      fix row assume "row \<in> set (map data_row (sort_key date recs))"
      then obtain x where x: "x \<in> set (sort_key date recs)" "row = data_row x" by auto
      from data_row_shape [OF wf [OF x(1)]] obtain date_obj where
        "hd (data_row x) = StrCell (formatted_date date_obj)" by auto
      moreover from data_row_shape [OF wf [OF x(1)]] have "length (data_row x) = 9" by auto
      ultimately
      show "length row = 9 \<and> (\<exists>date_obj. hd row = StrCell (formatted_date date_obj))"
        using x(2) by blast
    qed
    from r w(1,2) nh shape show ?thesis by simp
  qed
  with s show ?thesis by simp
qed

text \<open>One record on an empty sheet: the sheet then holds the data row alone.\<close>

theorem header_never_written_witness:
  "fst (get_existing_data iso_service empty_doc) = [] \<and>
   snapshot iso_service empty_doc = [headers] \<and>
   sheet_after (append_daily_data analytics_handler iso_service empty_doc
     [day_record ''2024-01-01'']) \<noteq> empty_doc \<and>
   appended (sheet_after (append_daily_data analytics_handler iso_service empty_doc
     [day_record ''2024-01-01''])) = [[day_cells ''=DATE(2024, 1, 1)'']] \<and>
   table (sheet_after (append_daily_data analytics_handler iso_service empty_doc
     [day_record ''2024-01-01''])) = [day_shown ''2024-01-01'']"
proof -
  have g: "fst (get_existing_data iso_service empty_doc) = []"
    by (simp add: run_defs)
  have n: "sheet_after (append_daily_data analytics_handler iso_service empty_doc
     [day_record ''2024-01-01'']) \<noteq> empty_doc"
    by (simp add: run_defs)
  have sh: "map (shown iso_service) [day_cells ''=DATE(2024, 1, 1)''] = [day_shown ''2024-01-01'']"
    by (simp add: run_defs)
  from header_never_written [OF g, of analytics_handler "[day_record ''2024-01-01'']"] n
  have "snapshot iso_service empty_doc = [headers]"
    "appended (sheet_after (append_daily_data analytics_handler iso_service empty_doc
       [day_record ''2024-01-01''])) =
       appended empty_doc @ [map data_row (sort_key date [day_record ''2024-01-01''])]"
    "table (sheet_after (append_daily_data analytics_handler iso_service empty_doc
       [day_record ''2024-01-01''])) =
       table empty_doc @ map (shown iso_service) (map data_row (sort_key date [day_record ''2024-01-01'']))"
    by auto
  then show ?thesis
    using g n sh by (simp add: day_record_row empty_doc_def)
qed

end
